theory Spec2Isabelle
  imports Main "HOL-Library.Sublist"
begin

section \<open>Toast notifications: types (types/errors.ts)\<close>

text \<open>
  A property of a JavaScript object literal is in one of three states: the key is
  missing, the key is there and holds \<^verbatim>\<open>undefined\<close>, or the key holds a value. The
  object spread \<^verbatim>\<open>{...options}\<close> copies every key that is there, also one that holds
  \<^verbatim>\<open>undefined\<close>, while \<^verbatim>\<open>??\<close> treats the first two states alike; so the three are
  kept apart.
\<close>

datatype 'a optional = Absent | Undefined | Present 'a

datatype ToastType = Success | Error | Warning | Info

datatype Variant = Primary | Secondary

text \<open>\<^verbatim>\<open>onClick\<close> is a closure; the store only carries it around, so it is a reference.\<close>

record ToastAction =
  label :: string
  onClick :: nat
  variant :: "Variant optional"

text \<open>
  \<^verbatim>\<open>ToastOptions\<close> is the argument of the four severity constructors
  (\<^verbatim>\<open>duration?\<close>, \<^verbatim>\<open>actions?\<close> and \<^verbatim>\<open>details?\<close> are optional keys).
\<close>

record ToastOptions =
  title :: string
  message :: string
  duration :: "int optional"
  actions :: "ToastAction list optional"
  details :: "string optional"

text \<open>
  \<^verbatim>\<open>Omit<Toast, "id">\<close>, the argument of \<^verbatim>\<open>addToast\<close>, and \<^verbatim>\<open>Toast\<close> itself. Durations
  are milliseconds; the store never computes with them, so an integer stands for the
  JavaScript number. \<^verbatim>\<open>Toast.duration\<close> is declared \<^verbatim>\<open>number\<close>, but the spread in the
  severity constructors can write an explicit \<^verbatim>\<open>undefined\<close> over it, so the field keeps
  the state of the property. The identifier field is \<open>id'\<close> (\<open>id\<close> is the identity
  function of HOL).
\<close>

record ToastInput =
  type :: ToastType
  title :: string
  message :: string
  duration :: "int optional"
  actions :: "ToastAction list optional"
  details :: "string optional"

record Toast = ToastInput +
  id' :: string

section \<open>Toast store (stores/toast.store.ts)\<close>

record ToastStore =
  toasts :: "Toast list"

definition MAX_TOASTS :: nat where
  "MAX_TOASTS = 5"

definition initialStore :: ToastStore where
  "initialStore = \<lparr>toasts = []\<rparr>"

text \<open>
  The template literal \<^verbatim>\<open>`toast-${Date.now()}-${Math.random()}`\<close>. \<^verbatim>\<open>Date.now()\<close> is a
  count of milliseconds, printed in decimal; \<^verbatim>\<open>Math.random()\<close> is a floating point
  number, taken here already printed (\<open>rnd\<close> is its text, such as \<open>''0.25''\<close>). Both
  are inputs of \<open>addToast\<close>: the clock and the generator are outside the store.
\<close>

definition digit :: "nat \<Rightarrow> char" where
  "digit d = char_of (48 + d)"

function decimal :: "nat \<Rightarrow> string" where
  "decimal n = (if n < 10 then [digit n] else decimal (n div 10) @ [digit (n mod 10)])"
  by pat_completeness auto
termination
  by (relation "measure (\<lambda>n. n)") auto

declare decimal.simps [simp del]

definition toastId :: "nat \<Rightarrow> string \<Rightarrow> string" where
  "toastId now rnd = ''toast-'' @ decimal now @ ''-'' @ rnd"

text \<open>\<^verbatim>\<open>{ ...toast, id }\<close>: every field of the argument, and the identifier.\<close>

definition withId :: "ToastInput \<Rightarrow> string \<Rightarrow> Toast" where
  "withId toast i =
     \<lparr>type = type toast, title = ToastInput.title toast, message = ToastInput.message toast,
      duration = ToastInput.duration toast, actions = ToastInput.actions toast,
      details = ToastInput.details toast, id' = i\<rparr>"

text \<open>
  \<^verbatim>\<open>addToast\<close>: the new toast goes to the end of a copy of the queue; \<^verbatim>\<open>shift()\<close> drops
  the first element when the copy is longer than \<open>MAX_TOASTS\<close> (the copy is never empty
  there, so \<open>tl\<close> is what \<^verbatim>\<open>shift\<close> leaves).
\<close>

definition addToast :: "nat \<Rightarrow> string \<Rightarrow> ToastInput \<Rightarrow> ToastStore \<Rightarrow> ToastStore" where
  "addToast now rnd toast state =
     (let i = toastId now rnd;
          newToast = withId toast i;
          appended = toasts state @ [newToast];
          shifted = (if length appended > MAX_TOASTS then tl appended else appended)
      in state\<lparr>toasts := shifted\<rparr>)"

definition removeToast :: "string \<Rightarrow> ToastStore \<Rightarrow> ToastStore" where
  "removeToast i state = state\<lparr>toasts := filter (\<lambda>t. id' t \<noteq> i) (toasts state)\<rparr>"

definition clearToasts :: "ToastStore \<Rightarrow> ToastStore" where
  "clearToasts state = state\<lparr>toasts := []\<rparr>"

text \<open>A call of the store, and a sequence of calls run from a state, oldest call first.\<close>

datatype StoreCall = AddToast nat string ToastInput | RemoveToast string | ClearToasts

fun call :: "StoreCall \<Rightarrow> ToastStore \<Rightarrow> ToastStore" where
  "call (AddToast now rnd toast) state = addToast now rnd toast state"
| "call (RemoveToast i) state = removeToast i state"
| "call ClearToasts state = clearToasts state"

definition run :: "StoreCall list \<Rightarrow> ToastStore \<Rightarrow> ToastStore" where
  "run calls state = foldl (\<lambda>s c. call c s) state calls"

text \<open>The clock reading and random text of every \<open>addToast\<close> in a sequence of calls.\<close>

fun draws :: "StoreCall list \<Rightarrow> (nat \<times> string) list" where
  "draws [] = []"
| "draws (AddToast now rnd toast # cs) = (now, rnd) # draws cs"
| "draws (c # cs) = draws cs"

section \<open>Severity constructors (utils/toast.ts)\<close>

text \<open>\<^verbatim>\<open>a ?? b\<close>: \<open>b\<close> when \<open>a\<close> is \<^verbatim>\<open>undefined\<close> (a missing key reads as \<^verbatim>\<open>undefined\<close>).\<close>

fun nullish :: "'a optional \<Rightarrow> 'a \<Rightarrow> 'a" where
  "nullish (Present v) d = v"
| "nullish Undefined d = d"
| "nullish Absent d = d"

text \<open>
  One key of \<^verbatim>\<open>{key: old, ...options}\<close>: the spread overwrites the key when
  \<^verbatim>\<open>options\<close> has it, whatever it holds.
\<close>

fun spread :: "'a optional \<Rightarrow> 'a optional \<Rightarrow> 'a optional" where
  "spread old Absent = old"
| "spread old new = new"

text \<open>
  \<^verbatim>\<open>{ type: t, duration: options.duration ?? d, ...options }\<close>, the object that each
  constructor hands to \<^verbatim>\<open>addToast\<close>, for options with the keys that \<^verbatim>\<open>ToastOptions\<close>
  declares. (The spread would copy any other key too, and a \<^verbatim>\<open>type\<close> key would
  overwrite the severity; the interface has no such key.)
\<close>

definition toastOf :: "ToastType \<Rightarrow> int \<Rightarrow> ToastOptions \<Rightarrow> ToastInput" where
  "toastOf t d options =
     \<lparr>type = t, title = ToastOptions.title options, message = ToastOptions.message options,
      duration = spread (Present (nullish (ToastOptions.duration options) d))
                   (ToastOptions.duration options),
      actions = spread Absent (ToastOptions.actions options),
      details = spread Absent (ToastOptions.details options)\<rparr>"

definition success :: "nat \<Rightarrow> string \<Rightarrow> ToastOptions \<Rightarrow> ToastStore \<Rightarrow> ToastStore" where
  "success now rnd options state = addToast now rnd (toastOf Success 3000 options) state"

definition error :: "nat \<Rightarrow> string \<Rightarrow> ToastOptions \<Rightarrow> ToastStore \<Rightarrow> ToastStore" where
  "error now rnd options state = addToast now rnd (toastOf Error 5000 options) state"

definition warning :: "nat \<Rightarrow> string \<Rightarrow> ToastOptions \<Rightarrow> ToastStore \<Rightarrow> ToastStore" where
  "warning now rnd options state = addToast now rnd (toastOf Warning 4000 options) state"

definition info :: "nat \<Rightarrow> string \<Rightarrow> ToastOptions \<Rightarrow> ToastStore \<Rightarrow> ToastStore" where
  "info now rnd options state = addToast now rnd (toastOf Info 3000 options) state"

section \<open>Canvas event bus (components/canvas/canvasEvents.ts)\<close>

text \<open>The keys of \<^verbatim>\<open>CanvasEvents\<close>.\<close>

datatype CanvasEvent = PreviewImage | PreviewVideo | EditCharacter | RegenerateCharacter
  | DeleteCharacter | EditShot | RegenerateShot | DeleteShot

text \<open>
  A JavaScript \<^verbatim>\<open>Set\<close> of callbacks. ECMAScript keeps the elements of a Set in a list
  in insertion order: \<^verbatim>\<open>add\<close> appends a value that is not yet in the list,
  \<^verbatim>\<open>delete\<close> replaces the value by an empty slot (\<open>None\<close>) and leaves the slot in
  place, and \<^verbatim>\<open>forEach\<close> walks the list by index. The slots only show when a callback
  changes the Set while \<^verbatim>\<open>forEach\<close> runs over it. Callbacks are compared by
  reference: \<open>'c\<close> is the type of the references.
\<close>

type_synonym 'c SetData = "'c option list"

definition setAdd :: "'c \<Rightarrow> 'c SetData \<Rightarrow> 'c SetData" where
  "setAdd c s = (if Some c \<in> set s then s else s @ [Some c])"

definition setDelete :: "'c \<Rightarrow> 'c SetData \<Rightarrow> 'c SetData" where
  "setDelete c s = map (\<lambda>e. if e = Some c then None else e) s"

text \<open>The values of a Set, in the order in which iteration meets them.\<close>

fun members :: "'c SetData \<Rightarrow> 'c list" where
  "members [] = []"
| "members (None # s) = members s"
| "members (Some c # s) = c # members s"

text \<open>
  The bus: \<^verbatim>\<open>listeners\<close> is the \<^verbatim>\<open>Map\<close> from event to a Set object. Set objects are
  held by reference (a running \<^verbatim>\<open>forEach\<close> and the Map can hold the same Set), so
  they live in a store \<open>sets\<close>, and \<open>fresh\<close> is the next unused reference.
\<close>

type_synonym ref = nat

record 'c CanvasEventBus =
  listeners :: "CanvasEvent \<rightharpoonup> ref"
  sets :: "ref \<Rightarrow> 'c SetData"
  fresh :: ref

definition canvasEvents :: "'c CanvasEventBus" where
  "canvasEvents = \<lparr>listeners = Map.empty, sets = (\<lambda>r. []), fresh = 0\<rparr>"

text \<open>
  \<^verbatim>\<open>this.listeners.get(event)?.delete(callback)\<close>: the body of the function that
  \<^verbatim>\<open>on\<close> returns, and of \<^verbatim>\<open>off\<close> when it is given a callback.
\<close>

definition deleteListener :: "CanvasEvent \<Rightarrow> 'c \<Rightarrow> 'c CanvasEventBus \<Rightarrow> 'c CanvasEventBus" where
  "deleteListener event callback b =
     (case listeners b event of
        None \<Rightarrow> b
      | Some r \<Rightarrow> b\<lparr>sets := (sets b)(r := setDelete callback (sets b r))\<rparr>)"

text \<open>
  \<^verbatim>\<open>on\<close> returns the bus after the registration and the unsubscribe function, a closure
  over \<open>event\<close> and \<open>callback\<close> that acts on the bus as it is when it is called.
  \<open>the\<close> is the non-null assertion \<^verbatim>\<open>get(event)!\<close>; the key is always there at that
  point (\<open>on_listeners\<close> below).
\<close>

definition on ::
  "CanvasEvent \<Rightarrow> 'c \<Rightarrow> 'c CanvasEventBus
     \<Rightarrow> 'c CanvasEventBus \<times> ('c CanvasEventBus \<Rightarrow> 'c CanvasEventBus)" where
  "on event callback b =
     (let b1 = (if listeners b event = None
                then b\<lparr>listeners := (listeners b)(event \<mapsto> fresh b),
                       sets := (sets b)(fresh b := []), fresh := Suc (fresh b)\<rparr>
                else b);
          r = the (listeners b1 event);
          b2 = b1\<lparr>sets := (sets b1)(r := setAdd callback (sets b1 r))\<rparr>
      in (b2, deleteListener event callback))"

definition off :: "CanvasEvent \<Rightarrow> 'c option \<Rightarrow> 'c CanvasEventBus \<Rightarrow> 'c CanvasEventBus" where
  "off event callback b =
     (case callback of
        Some c \<Rightarrow> deleteListener event c b
      | None \<Rightarrow> b\<lparr>listeners := (listeners b)(event := None)\<rparr>)"

definition clear :: "'c CanvasEventBus \<Rightarrow> 'c CanvasEventBus" where
  "clear b = b\<lparr>listeners := Map.empty\<rparr>"

text \<open>
  How a call of a callback ends: it returns, or it throws; either way it leaves a bus
  behind, since a callback may itself call \<^verbatim>\<open>on\<close>, \<^verbatim>\<open>off\<close>, \<^verbatim>\<open>clear\<close> or \<^verbatim>\<open>emit\<close>.
\<close>

datatype ('e, 's) completion = Normal 's | Throw 'e 's

text \<open>
  \<^verbatim>\<open>Set.prototype.forEach\<close> over the Set object \<open>r\<close>, from index \<open>i\<close>: an empty slot is
  skipped, the length is read again after every call, and an exception ends the walk.
  \<open>called\<close> lists the elements the function has been called on so far. A callback
  that keeps adding to the Set keeps the walk going forever: the result is \<open>None\<close> then.
\<close>

partial_function (option) forEach ::
  "('c \<Rightarrow> 'c CanvasEventBus \<Rightarrow> ('e, 'c CanvasEventBus) completion) \<Rightarrow> ref \<Rightarrow> nat \<Rightarrow> 'c list
     \<Rightarrow> 'c CanvasEventBus \<Rightarrow> ('c list \<times> ('e, 'c CanvasEventBus) completion) option" where
  "forEach f r i called b =
     (if i < length (sets b r) then
        (case sets b r ! i of
           None \<Rightarrow> forEach f r (i + 1) called b
         | Some c \<Rightarrow>
             (case f c b of
                Throw e b' \<Rightarrow> Some (called @ [c], Throw e b')
              | Normal b' \<Rightarrow> forEach f r (i + 1) (called @ [c]) b'))
      else Some (called, Normal b))"

text \<open>
  \<^verbatim>\<open>emit\<close>. \<open>body c data\<close> is what calling the callback \<open>c\<close> on \<open>data\<close> does. The result
  lists the calls made, each with the data passed, and says how the dispatch ended.
\<close>

definition emit ::
  "('c \<Rightarrow> 'p \<Rightarrow> 'c CanvasEventBus \<Rightarrow> ('e, 'c CanvasEventBus) completion) \<Rightarrow> CanvasEvent \<Rightarrow> 'p
     \<Rightarrow> 'c CanvasEventBus \<Rightarrow> (('c \<times> 'p) list \<times> ('e, 'c CanvasEventBus) completion) option" where
  "emit body event data b =
     (case listeners b event of
        None \<Rightarrow> Some ([], Normal b)
      | Some r \<Rightarrow>
          map_option (\<lambda>(called, res). (map (\<lambda>c. (c, data)) called, res))
            (forEach (\<lambda>callback. body callback data) r 0 [] b))"

text \<open>The callbacks registered for an event, in registration order.\<close>

definition registered :: "'c CanvasEventBus \<Rightarrow> CanvasEvent \<Rightarrow> 'c list" where
  "registered b event = (case listeners b event of None \<Rightarrow> [] | Some r \<Rightarrow> members (sets b r))"

text \<open>
  What every bus built by \<^verbatim>\<open>on\<close>, \<^verbatim>\<open>off\<close> and \<^verbatim>\<open>clear\<close> satisfies (\<open>built_wellFormed\<close>
  below): the Map holds references that have been handed out, no two events share a Set
  object, and no Set holds a callback twice.
\<close>

definition wellFormed :: "'c CanvasEventBus \<Rightarrow> bool" where
  "wellFormed b \<longleftrightarrow>
     (\<forall>k r. listeners b k = Some r \<longrightarrow> r < fresh b \<and> distinct (members (sets b r))) \<and>
     (\<forall>k k' r. listeners b k = Some r \<longrightarrow> listeners b k' = Some r \<longrightarrow> k = k')"

text \<open>The buses that calls of \<^verbatim>\<open>on\<close>, of the functions it returns, of \<^verbatim>\<open>off\<close> and of \<^verbatim>\<open>clear\<close> build.\<close>

inductive built :: "'c CanvasEventBus \<Rightarrow> bool" where
  initial: "built canvasEvents"
| subscribe: "built b \<Longrightarrow> built (fst (on event callback b))"
| unsubscribe: "built b \<Longrightarrow> built (snd (on event callback b0) b)"
| off: "built b \<Longrightarrow> built (off event cb b)"
| clear: "built b \<Longrightarrow> built (clear b)"

text \<open>
  A dispatch whose pending callbacks are left alone. \<open>pending i s s0\<close> says of the Set
  that a running \<^verbatim>\<open>forEach\<close> walks, and of the slots \<open>s0\<close> it had when the walk began,
  that the slots of the start from index \<open>i\<close> on are still as they were: nothing that
  was in the Set at the start and is still to be visited has been removed. The Set may
  have grown.
\<close>

definition pending :: "nat \<Rightarrow> 'c SetData \<Rightarrow> 'c SetData \<Rightarrow> bool" where
  "pending i s s0 \<longleftrightarrow> length s0 \<le> length s \<and> (\<forall>j. i \<le> j \<longrightarrow> j < length s0 \<longrightarrow> s ! j = s0 ! j)"

text \<open>
  \<open>I\<close> is any property of the bus that holds when \<^verbatim>\<open>emit\<close> is called and that the
  callbacks keep: it says which buses the callbacks can meet. On those, the callback in
  slot \<open>i\<close>, when it returns, has removed nothing behind its own slot. It may throw,
  remove itself or callbacks already called, add callbacks, and change the rest of the
  bus, also take the Set out of the Map.
\<close>

definition keepsPending ::
  "('c \<Rightarrow> 'p \<Rightarrow> 'c CanvasEventBus \<Rightarrow> ('e, 'c CanvasEventBus) completion) \<Rightarrow> CanvasEvent \<Rightarrow> 'p
     \<Rightarrow> ('c CanvasEventBus \<Rightarrow> bool) \<Rightarrow> 'c CanvasEventBus \<Rightarrow> bool" where
  "keepsPending body event data I b \<longleftrightarrow>
     I b \<and>
     (\<forall>r i c s s'. listeners b event = Some r \<longrightarrow> i < length (sets b r) \<longrightarrow>
        sets b r ! i = Some c \<longrightarrow> I s \<longrightarrow> pending i (sets s r) (sets b r) \<longrightarrow>
        body c data s = Normal s' \<longrightarrow>
        I s' \<and> pending (Suc i) (sets s' r) (sets b r))"



text \<open>On the buses the callbacks can meet, the Set of the event has the size of the start.\<close>

definition addsNothing :: "('c CanvasEventBus \<Rightarrow> bool) \<Rightarrow> CanvasEvent \<Rightarrow> 'c CanvasEventBus \<Rightarrow> bool" where
  "addsNothing I event b \<longleftrightarrow>
     (\<forall>s r. I s \<longrightarrow> listeners b event = Some r \<longrightarrow> length (sets s r) = length (sets b r))"

text \<open>
  The calls that \<^verbatim>\<open>forEach\<close> makes from slot \<open>i\<close> of the Set object \<open>r\<close> on, each with
  the data, and how the walk ends.
\<close>

definition walkFrom ::
  "('c \<Rightarrow> 'p \<Rightarrow> 'c CanvasEventBus \<Rightarrow> ('e, 'c CanvasEventBus) completion) \<Rightarrow> 'p \<Rightarrow> ref \<Rightarrow> nat
     \<Rightarrow> 'c CanvasEventBus \<Rightarrow> (('c \<times> 'p) list \<times> ('e, 'c CanvasEventBus) completion) option" where
  "walkFrom body data r i b =
     map_option (\<lambda>(called, res). (map (\<lambda>c. (c, data)) called, res))
       (forEach (\<lambda>callback. body callback data) r i [] b)"

text \<open>
  The dispatch that the specification describes, for comparison with \<^verbatim>\<open>emit\<close>; it is not
  code of the repository. The callbacks of a list are called one after the other on the
  data, each on the state the one before left; the first that throws ends the dispatch
  and its exception is the result. The result lists the calls made.
\<close>

fun callInOrder ::
  "('c \<Rightarrow> 'p \<Rightarrow> 's \<Rightarrow> ('e, 's) completion) \<Rightarrow> 'p \<Rightarrow> 'c list \<Rightarrow> 's
     \<Rightarrow> ('c \<times> 'p) list \<times> ('e, 's) completion" where
  "callInOrder body data [] s = ([], Normal s)"
| "callInOrder body data (c # cs) s =
     (case body c data s of
        Throw e s' \<Rightarrow> ([(c, data)], Throw e s')
      | Normal s' \<Rightarrow>
          (case callInOrder body data cs s' of (calls, res) \<Rightarrow> ((c, data) # calls, res)))"

section \<open>Sample data\<close>

text \<open>The toasts T1 to T5 added in order to the empty queue, and the options of a plain call.\<close>

definition sampleToast :: "string \<Rightarrow> ToastInput" where
  "sampleToast t =
     \<lparr>type = Info, title = t, message = ''OK'', duration = Present 3000, actions = Absent,
      details = Absent\<rparr>"

definition fiveCalls :: "StoreCall list" where
  "fiveCalls =
     [AddToast 1 ''0.1'' (sampleToast ''T1''), AddToast 2 ''0.2'' (sampleToast ''T2''),
      AddToast 3 ''0.3'' (sampleToast ''T3''), AddToast 4 ''0.4'' (sampleToast ''T4''),
      AddToast 5 ''0.5'' (sampleToast ''T5'')]"

definition sampleOptions :: ToastOptions where
  "sampleOptions =
     \<lparr>ToastOptions.title = ''Saved'', ToastOptions.message = ''OK'', ToastOptions.duration = Absent,
      ToastOptions.actions = Absent, ToastOptions.details = Absent\<rparr>"

text \<open>
  Buses: one and two callbacks registered for \<^verbatim>\<open>delete-character\<close>, a third callback for
  \<^verbatim>\<open>edit-shot\<close>, and a bus whose only subscription has been cancelled. Callback bodies:
  the first callback throws; it unsubscribes the second; every callback unsubscribes and
  subscribes itself again; every callback unsubscribes itself; the second callback
  unsubscribes the first and subscribes it again; the first callback subscribes a third
  to the same event. \<open>atZero\<close> and \<open>twoSlots\<close> are properties of the bus that these
  callbacks keep.
\<close>

definition oneListener :: "nat CanvasEventBus" where
  "oneListener = fst (on DeleteCharacter 1 canvasEvents)"

definition twoListeners :: "nat CanvasEventBus" where
  "twoListeners = fst (on DeleteCharacter 2 oneListener)"

definition threeListeners :: "nat CanvasEventBus" where
  "threeListeners = fst (on EditShot 3 twoListeners)"

definition allCancelled :: "nat CanvasEventBus" where
  "allCancelled = snd (on DeleteShot 1 canvasEvents) (fst (on DeleteShot 1 canvasEvents))"

definition atZero :: "nat CanvasEventBus \<Rightarrow> bool" where
  "atZero s \<longleftrightarrow> listeners s DeleteCharacter = Some 0"

definition twoSlots :: "nat CanvasEventBus \<Rightarrow> bool" where
  "twoSlots s \<longleftrightarrow> listeners s DeleteCharacter = Some 0 \<and> length (sets s 0) = 2"

definition firstThrows :: "nat \<Rightarrow> nat \<Rightarrow> nat CanvasEventBus \<Rightarrow> (string, nat CanvasEventBus) completion" where
  "firstThrows c data s = (if c = 1 then Throw ''failed'' s else Normal s)"

definition firstUnsubscribesSecond ::
  "nat \<Rightarrow> nat \<Rightarrow> nat CanvasEventBus \<Rightarrow> (string, nat CanvasEventBus) completion" where
  "firstUnsubscribesSecond c data s =
     (if c = 1 then Normal (off DeleteCharacter (Some 2) s) else Normal s)"

definition resubscribes :: "nat \<Rightarrow> nat \<Rightarrow> nat CanvasEventBus \<Rightarrow> (string, nat CanvasEventBus) completion" where
  "resubscribes c data s = Normal (fst (on DeleteCharacter c (off DeleteCharacter (Some c) s)))"

definition unsubscribesItself ::
  "nat \<Rightarrow> nat \<Rightarrow> nat CanvasEventBus \<Rightarrow> (string, nat CanvasEventBus) completion" where
  "unsubscribesItself c data s = Normal (off DeleteCharacter (Some c) s)"


definition firstSubscribesThird ::
  "nat \<Rightarrow> nat \<Rightarrow> nat CanvasEventBus \<Rightarrow> (string, nat CanvasEventBus) completion" where
  "firstSubscribesThird c data s =
     (if c = 1 then Normal (fst (on DeleteCharacter 3 s)) else Normal s)"

section \<open>Toast store: properties\<close>

subsection \<open>Identifiers\<close>

text \<open>The identifier determines the clock reading and the random text it was built from.\<close>

lemma digit_inj: "a < 10 \<Longrightarrow> b < 10 \<Longrightarrow> digit a = digit b \<Longrightarrow> a = b"
proof -
  assume a: "a < 10" and b: "b < 10" and e: "digit a = digit b"
  have "48 + a \<in> {0..<256}" "48 + b \<in> {0..<256}" using a b by simp_all
  with e inj_on_char_of_nat have "48 + a = 48 + b"
    unfolding digit_def by (rule_tac inj_onD)
  then show "a = b" by simp
qed

lemma digit_not_dash: "d < 10 \<Longrightarrow> digit d \<noteq> CHR ''-''"
proof
  assume d: "d < 10" and e: "digit d = CHR ''-''"
  have "of_char (digit d) = (48 + d :: nat)" using d by (simp add: digit_def)
  moreover have "of_char (CHR ''-'') = (45 :: nat)" by simp
  ultimately show False using e by simp
qed

lemma first_dash_splits:
  "x \<notin> set xs \<Longrightarrow> x \<notin> set xs' \<Longrightarrow> xs @ x # ys = xs' @ x # ys' \<Longrightarrow> xs = xs' \<and> ys = ys'"
proof (induction xs arbitrary: xs')
  case Nil
  then show ?case by (cases xs') auto
next
  case (Cons a xs)
  then show ?case by (cases xs') auto
qed

lemma decimal_not_Nil: "decimal n \<noteq> []"
  by (subst decimal.simps) simp

lemma decimal_no_dash: "CHR ''-'' \<notin> set (decimal n)"
proof (induction n rule: decimal.induct)
  case (1 n)
  show ?case
  proof (cases "n < 10")
    case True
    then show ?thesis using digit_not_dash [of n] by (subst decimal.simps) auto
  next
    case False
    then show ?thesis using 1 digit_not_dash [of "n mod 10"]
      by (subst decimal.simps) auto
  qed
qed

lemma decimal_inj: "decimal n = decimal m \<Longrightarrow> n = m"
proof (induction n arbitrary: m rule: decimal.induct)
  case (1 n)
  show ?case
  proof (cases "n < 10")
    case n: True
    show ?thesis
    proof (cases "m < 10")
      case True
      with n 1(2) show ?thesis
        by (simp add: decimal.simps [of n] decimal.simps [of m] digit_inj)
    next
      case False
      with n 1(2) decimal_not_Nil [of "m div 10"] show ?thesis
        by (simp add: decimal.simps [of n] decimal.simps [of m])
    qed
  next
    case n: False
    show ?thesis
    proof (cases "m < 10")
      case True
      with n 1(2) decimal_not_Nil [of "n div 10"] show ?thesis
        by (simp add: decimal.simps [of n] decimal.simps [of m])
    next
      case False
      with n 1(2) have e: "decimal (n div 10) = decimal (m div 10)"
        and d: "digit (n mod 10) = digit (m mod 10)"
        by (simp_all add: decimal.simps [of n] decimal.simps [of m])
      from 1(1) [OF n e] have "n div 10 = m div 10" .
      moreover from d have "n mod 10 = m mod 10" by (simp add: digit_inj)
      ultimately show ?thesis by (metis div_mult_mod_eq)
    qed
  qed
qed

lemma toastId_inj: "toastId n r = toastId m q \<longleftrightarrow> n = m \<and> r = q"
proof
  assume "toastId n r = toastId m q"
  then have "decimal n @ CHR ''-'' # r = decimal m @ CHR ''-'' # q"
    by (simp add: toastId_def)
  then have "decimal n = decimal m \<and> r = q"
    using decimal_no_dash [of n] decimal_no_dash [of m] by (blast dest: first_dash_splits)
  then show "n = m \<and> r = q" by (auto dest: decimal_inj)
qed simp

subsection \<open>The queue\<close>

lemma toasts_addToast:
  "toasts (addToast now rnd t s) =
     (if length (toasts s) < MAX_TOASTS then toasts s else tl (toasts s)) @ [withId t (toastId now rnd)]"
  by (cases "toasts s") (simp_all add: addToast_def Let_def MAX_TOASTS_def)

lemma length_addToast: "length (toasts s) \<le> MAX_TOASTS \<Longrightarrow> length (toasts (addToast now rnd t s)) \<le> MAX_TOASTS"
  by (simp add: toasts_addToast MAX_TOASTS_def)

lemma length_call: "length (toasts s) \<le> MAX_TOASTS \<Longrightarrow> length (toasts (call c s)) \<le> MAX_TOASTS"
  by (cases c) (simp_all add: length_addToast removeToast_def clearToasts_def le_trans [OF length_filter_le])

lemma run_snoc: "run (cs @ [c]) s = call c (run cs s)"
  by (simp add: run_def)

lemma length_run: "length (toasts s) \<le> MAX_TOASTS \<Longrightarrow> length (toasts (run cs s)) \<le> MAX_TOASTS"
  by (induction cs rule: rev_induct) (simp_all add: run_snoc length_call run_def)

subsection \<open>Identifiers in the queue\<close>

lemma draws_append: "draws (cs @ ds) = draws cs @ draws ds"
  by (induction cs rule: draws.induct) simp_all

lemma ids_call_subset:
  "id' ` set (toasts (call c s)) \<subseteq> id' ` set (toasts s) \<union> (\<lambda>(n, r). toastId n r) ` set (draws [c])"
proof (cases c)
  case (AddToast now rnd t)
  have "set (tl (toasts s)) \<subseteq> set (toasts s)" by (cases "toasts s") auto
  then show ?thesis using AddToast by (auto simp: toasts_addToast withId_def)
qed (auto simp: removeToast_def clearToasts_def)

lemma ids_run_subset:
  "id' ` set (toasts (run cs initialStore)) \<subseteq> (\<lambda>(n, r). toastId n r) ` set (draws cs)"
proof (induction cs rule: rev_induct)
  case Nil
  show ?case by (simp add: run_def initialStore_def)
next
  case (snoc c cs)
  have "id' ` set (toasts (run (cs @ [c]) initialStore))
          \<subseteq> id' ` set (toasts (run cs initialStore)) \<union> (\<lambda>(n, r). toastId n r) ` set (draws [c])"
    using ids_call_subset [of c "run cs initialStore"] by (simp add: run_snoc)
  also have "\<dots> \<subseteq> (\<lambda>(n, r). toastId n r) ` set (draws cs) \<union> (\<lambda>(n, r). toastId n r) ` set (draws [c])"
    using snoc by blast
  also have "\<dots> = (\<lambda>(n, r). toastId n r) ` set (draws (cs @ [c]))"
    by (simp add: draws_append image_Un)
  finally show ?case .
qed

lemma distinct_ids_call:
  assumes d: "distinct (map id' (toasts s))"
    and new: "\<forall>n r. (n, r) \<in> set (draws [c]) \<longrightarrow> toastId n r \<notin> id' ` set (toasts s)"
  shows "distinct (map id' (toasts (call c s)))"
proof (cases c)
  case (AddToast now rnd t)
  have tl: "distinct (map id' (tl (toasts s)))" "set (tl (toasts s)) \<subseteq> set (toasts s)"
    using d by (cases "toasts s"; auto)+
  from new AddToast have "toastId now rnd \<notin> id' ` set (toasts s)" by simp
  with d tl AddToast show ?thesis by (auto simp: toasts_addToast withId_def)
next
  case (RemoveToast i)
  with d show ?thesis by (simp add: removeToast_def distinct_map_filter)
next
  case ClearToasts
  then show ?thesis by (simp add: clearToasts_def)
qed

lemma distinct_ids_run:
  "distinct (draws cs) \<Longrightarrow> distinct (map id' (toasts (run cs initialStore)))"
proof (induction cs rule: rev_induct)
  case Nil
  show ?case by (simp add: run_def initialStore_def)
next
  case (snoc c cs)
  from snoc.prems have dc: "distinct (draws cs)" and disj: "set (draws cs) \<inter> set (draws [c]) = {}"
    by (simp_all add: draws_append)
  have "\<forall>n r. (n, r) \<in> set (draws [c]) \<longrightarrow> toastId n r \<notin> id' ` set (toasts (run cs initialStore))"
  proof (intro allI impI notI)
    fix n r
    assume in_c: "(n, r) \<in> set (draws [c])" and "toastId n r \<in> id' ` set (toasts (run cs initialStore))"
    with ids_run_subset [of cs] obtain m q where "(m, q) \<in> set (draws cs)" "toastId n r = toastId m q"
      by auto
    with in_c disj show False by (auto simp: toastId_inj)
  qed
  with snoc.IH [OF dc] show ?case by (simp add: run_snoc distinct_ids_call)
qed

lemma distinct_generated: "distinct ds \<Longrightarrow> distinct (map (\<lambda>(n, r). toastId n r) ds)"
  by (auto simp: distinct_map inj_on_def toastId_inj)

lemma fresh_toastId:
  "(now, rnd) \<notin> set (draws calls) \<Longrightarrow> toastId now rnd \<notin> id' ` set (toasts (run calls initialStore))"
proof
  assume new: "(now, rnd) \<notin> set (draws calls)"
    and "toastId now rnd \<in> id' ` set (toasts (run calls initialStore))"
  with ids_run_subset [of calls] obtain n r where "(n, r) \<in> set (draws calls)" "toastId now rnd = toastId n r"
    by auto
  with new show False by (simp add: toastId_inj)
qed

subsection \<open>The sample queue\<close>

lemma toasts_fiveCalls:
  "toasts (run fiveCalls initialStore) =
     [withId (sampleToast ''T1'') (toastId 1 ''0.1''), withId (sampleToast ''T2'') (toastId 2 ''0.2''),
      withId (sampleToast ''T3'') (toastId 3 ''0.3''), withId (sampleToast ''T4'') (toastId 4 ''0.4''),
      withId (sampleToast ''T5'') (toastId 5 ''0.5'')]"
  by (simp add: run_def fiveCalls_def initialStore_def toasts_addToast MAX_TOASTS_def)

subsection \<open>Claims about the toast store\<close>

text \<open>
  C1. After any sequence of calls of the store from the empty queue (so after any
  sequence of \<^verbatim>\<open>addToast\<close> calls) the queue holds at most 5 toasts; and \<^verbatim>\<open>addToast\<close> on
  a queue that holds 5 drops the first, oldest entry and keeps the other four in their
  order, followed by the new toast.
\<close>

theorem addToast_capacity:
  "length (toasts (run calls initialStore)) \<le> 5 \<and>
   (length (toasts s) = 5 \<longrightarrow>
      toasts (addToast now rnd t s) = tl (toasts s) @ [withId t (toastId now rnd)])"
proof
  have "length (toasts initialStore) \<le> MAX_TOASTS" by (simp add: initialStore_def)
  then have "length (toasts (run calls initialStore)) \<le> MAX_TOASTS" by (rule length_run)
  then show "length (toasts (run calls initialStore)) \<le> 5" by (simp add: MAX_TOASTS_def)
next
  show "length (toasts s) = 5 \<longrightarrow>
      toasts (addToast now rnd t s) = tl (toasts s) @ [withId t (toastId now rnd)]"
    by (simp add: toasts_addToast MAX_TOASTS_def)
qed

theorem addToast_capacity_witness:
  "length (toasts (run (fiveCalls @ [AddToast 6 ''0.6'' (sampleToast ''T6'')]) initialStore)) \<le> 5 \<and>
   length (toasts (run fiveCalls initialStore)) = 5 \<and>
   map ToastInput.title (toasts (addToast 6 ''0.6'' (sampleToast ''T6'') (run fiveCalls initialStore)))
     = [''T2'', ''T3'', ''T4'', ''T5'', ''T6'']"
proof -
  have five: "length (toasts (run fiveCalls initialStore)) = 5"
    by (simp add: toasts_fiveCalls)
  from addToast_capacity [of "fiveCalls @ [AddToast 6 ''0.6'' (sampleToast ''T6'')]"
      "run fiveCalls initialStore" 6 "''0.6''" "sampleToast ''T6''"] five
  show ?thesis by (simp add: toasts_fiveCalls withId_def sampleToast_def)
qed

text \<open>
  C7. \<^verbatim>\<open>removeToast\<close> with an identifier that no toast of the queue has gives the store
  back as it was. The operation is a total function: there is no error to raise.
\<close>

theorem removeToast_unknown_id:
  "i \<notin> id' ` set (toasts s) \<Longrightarrow> removeToast i s = s"
proof -
  assume "i \<notin> id' ` set (toasts s)"
  then have "filter (\<lambda>t. id' t \<noteq> i) (toasts s) = toasts s" by (auto intro: filter_True)
  then show ?thesis by (simp add: removeToast_def)
qed

theorem removeToast_unknown_id_witness:
  "''gone'' \<notin> id' ` set (toasts (run fiveCalls initialStore)) \<and>
   removeToast ''gone'' (run fiveCalls initialStore) = run fiveCalls initialStore"
proof -
  have absent: "''gone'' \<notin> id' ` set (toasts (run fiveCalls initialStore))"
    by (simp add: toasts_fiveCalls withId_def toastId_def)
  from absent removeToast_unknown_id [OF absent] show ?thesis by simp
qed

text \<open>
  C10 as stated fails in one part: the identifier added need not be fresh. A second call
  with the clock reading and random number of the first adds a toast with the
  identifier that the toast in the queue has.
\<close>

theorem addToast_frame_counterexample:
  "id' (last (toasts (addToast 1700000000000 ''0.5'' (sampleToast ''B'')
       (addToast 1700000000000 ''0.5'' (sampleToast ''A'') initialStore))))
     \<in> id' ` set (toasts (addToast 1700000000000 ''0.5'' (sampleToast ''A'') initialStore))"
  by (simp add: initialStore_def toasts_addToast MAX_TOASTS_def withId_def)

text \<open>
  C10, as amended. \<^verbatim>\<open>addToast\<close> puts the new toast last; its six fields are the caller's
  and its identifier is the one built from the clock reading and random number of this
  call. In front of it stand the earlier entries themselves, all of them or all but the
  first, in their order. The identifier differs from every identifier in a queue built
  by calls of the store, none of which drew the same clock reading and random number.
\<close>

theorem addToast_frame:
  "toasts (addToast now rnd t s) =
     (if length (toasts s) < 5 then toasts s else tl (toasts s)) @ [withId t (toastId now rnd)] \<and>
   type (withId t i) = type t \<and> ToastInput.title (withId t i) = ToastInput.title t \<and>
   ToastInput.message (withId t i) = ToastInput.message t \<and>
   ToastInput.duration (withId t i) = ToastInput.duration t \<and>
   ToastInput.actions (withId t i) = ToastInput.actions t \<and>
   ToastInput.details (withId t i) = ToastInput.details t \<and> id' (withId t i) = i \<and>
   ((now, rnd) \<notin> set (draws calls) \<longrightarrow>
      toastId now rnd \<notin> id' ` set (toasts (run calls initialStore)))"
  by (simp add: toasts_addToast MAX_TOASTS_def withId_def fresh_toastId)

theorem addToast_frame_witness:
  "(6, ''0.6'') \<notin> set (draws fiveCalls) \<and>
   toastId 6 ''0.6'' \<notin> id' ` set (toasts (run fiveCalls initialStore)) \<and>
   map id' (toasts (addToast 6 ''0.6'' (sampleToast ''T6'') (run fiveCalls initialStore))) =
     [toastId 2 ''0.2'', toastId 3 ''0.3'', toastId 4 ''0.4'', toastId 5 ''0.5'', toastId 6 ''0.6'']"
proof -
  have new: "(6, ''0.6'') \<notin> set (draws fiveCalls)" by (simp add: fiveCalls_def)
  note claim = addToast_frame [of 6 "''0.6''" "sampleToast ''T6''" "run fiveCalls initialStore" "''x''" fiveCalls]
  from claim new have "toastId 6 ''0.6'' \<notin> id' ` set (toasts (run fiveCalls initialStore))"
    by blast
  moreover from claim [THEN conjunct1]
  have "map id' (toasts (addToast 6 ''0.6'' (sampleToast ''T6'') (run fiveCalls initialStore))) =
     [toastId 2 ''0.2'', toastId 3 ''0.3'', toastId 4 ''0.4'', toastId 5 ''0.5'', toastId 6 ''0.6'']"
    by (simp add: toasts_fiveCalls withId_def)
  ultimately show ?thesis using new by (intro conjI)
qed

text \<open>
  C9 as stated fails: two calls that read the same clock value and draw the same random
  number leave two toasts with one identifier in the queue.
\<close>

theorem toast_ids_distinct_counterexample:
  "\<not> distinct (map id' (toasts (run [AddToast 1700000000000 ''0.5'' (sampleToast ''A''),
        AddToast 1700000000000 ''0.5'' (sampleToast ''B'')] initialStore)))"
  by (simp add: run_def initialStore_def toasts_addToast MAX_TOASTS_def withId_def)

text \<open>
  C9, as amended. The identifier is built from the clock reading and the random text,
  and distinct pairs give distinct identifiers. So when no two \<^verbatim>\<open>addToast\<close> calls of a
  sequence draw the same pair, the identifiers generated are pairwise distinct and so
  are the identifiers in the queue.
\<close>

theorem toast_ids_distinct:
  "distinct (draws calls) \<Longrightarrow>
     distinct (map (\<lambda>(now, rnd). toastId now rnd) (draws calls)) \<and>
     distinct (map id' (toasts (run calls initialStore)))"
  by (simp add: distinct_generated distinct_ids_run)

theorem toast_ids_distinct_witness:
  "distinct (draws fiveCalls) \<and> distinct (map id' (toasts (run fiveCalls initialStore)))"
proof -
  have d: "distinct (draws fiveCalls)" by (simp add: fiveCalls_def)
  from d toast_ids_distinct [OF d] show ?thesis by simp
qed

subsection \<open>Severity constructors\<close>

lemma last_addToast: "last (toasts (addToast now rnd t s)) = withId t (toastId now rnd)"
  by (simp add: toasts_addToast)

text \<open>
  C3. Each constructor adds a toast of its own severity. When the options have no
  \<^verbatim>\<open>duration\<close> key, whatever else they hold, the duration is the default of the
  severity: 3000 for success, 5000 for error, 4000 for warning, 3000 for info. When the
  caller gives a duration, that value is stored.
\<close>

theorem severity_constructors:
  "type (last (toasts (success now rnd options s))) = Success \<and>
   type (last (toasts (error now rnd options s))) = Error \<and>
   type (last (toasts (warning now rnd options s))) = Warning \<and>
   type (last (toasts (info now rnd options s))) = Info \<and>
   (ToastOptions.duration options = Absent \<longrightarrow>
      ToastInput.duration (last (toasts (success now rnd options s))) = Present 3000 \<and>
      ToastInput.duration (last (toasts (error now rnd options s))) = Present 5000 \<and>
      ToastInput.duration (last (toasts (warning now rnd options s))) = Present 4000 \<and>
      ToastInput.duration (last (toasts (info now rnd options s))) = Present 3000) \<and>
   (\<forall>d. ToastOptions.duration options = Present d \<longrightarrow>
      ToastInput.duration (last (toasts (success now rnd options s))) = Present d \<and>
      ToastInput.duration (last (toasts (error now rnd options s))) = Present d \<and>
      ToastInput.duration (last (toasts (warning now rnd options s))) = Present d \<and>
      ToastInput.duration (last (toasts (info now rnd options s))) = Present d)"
  by (simp add: success_def error_def warning_def info_def last_addToast withId_def toastOf_def)

theorem severity_constructors_witness:
  "ToastOptions.duration sampleOptions = Absent \<and>
   ToastInput.duration (last (toasts (error 7 ''0.7'' sampleOptions initialStore))) = Present 5000 \<and>
   ToastOptions.duration (sampleOptions\<lparr>ToastOptions.duration := Present 0\<rparr>) = Present 0 \<and>
   ToastInput.duration (last (toasts (error 7 ''0.7'' (sampleOptions\<lparr>ToastOptions.duration := Present 0\<rparr>) initialStore)))
     = Present 0"
proof -
  have a: "ToastOptions.duration sampleOptions = Absent" by (simp add: sampleOptions_def)
  have p: "ToastOptions.duration (sampleOptions\<lparr>ToastOptions.duration := Present 0\<rparr>) = Present 0" by simp
  from a p severity_constructors [of 7 "''0.7''" sampleOptions initialStore]
    severity_constructors [of 7 "''0.7''" "sampleOptions\<lparr>ToastOptions.duration := Present 0\<rparr>" initialStore]
  show ?thesis by blast
qed

text \<open>
  Beside C3: a \<^verbatim>\<open>duration\<close> key that is there and holds \<^verbatim>\<open>undefined\<close> is copied by the
  spread over the default.
\<close>

lemma explicit_undefined_duration:
  "ToastOptions.duration options = Undefined \<Longrightarrow>
     ToastInput.duration (last (toasts (success now rnd options s))) = Undefined"
  by (simp add: success_def last_addToast withId_def toastOf_def)

section \<open>Canvas event bus: properties\<close>

subsection \<open>Sets\<close>

lemma members_append: "members (s @ t) = members s @ members t"
  by (induction s rule: members.induct) simp_all

lemma set_members: "c \<in> set (members s) \<longleftrightarrow> Some c \<in> set s"
  by (induction s rule: members.induct) auto

lemma members_setAdd:
  "members (setAdd c s) = (if c \<in> set (members s) then members s else members s @ [c])"
  by (simp add: setAdd_def set_members members_append)

lemma members_setDelete: "members (setDelete c s) = removeAll c (members s)"
  by (induction s rule: members.induct) (auto simp: setDelete_def)


lemma setDelete_twice: "setDelete c (setDelete c s) = setDelete c s"
  by (simp add: setDelete_def)

lemma distinct_setAdd: "distinct (members s) \<Longrightarrow> distinct (members (setAdd c s))"
  by (simp add: members_setAdd)

lemma distinct_setDelete: "distinct (members s) \<Longrightarrow> distinct (members (setDelete c s))"
  by (simp add: members_setDelete distinct_removeAll)

lemma members_drop_None: "i < length s \<Longrightarrow> s ! i = None \<Longrightarrow> members (drop i s) = members (drop (Suc i) s)"
  by (simp add: Cons_nth_drop_Suc [symmetric])

lemma members_drop_Some:
  "i < length s \<Longrightarrow> s ! i = Some c \<Longrightarrow> members (drop i s) = c # members (drop (Suc i) s)"
  by (simp add: Cons_nth_drop_Suc [symmetric])


subsection \<open>Registration and removal\<close>

lemma on_new:
  "listeners b k = None \<Longrightarrow>
     fst (on k c b) = b\<lparr>listeners := (listeners b)(k \<mapsto> fresh b),
                        sets := (sets b)(fresh b := [Some c]), fresh := Suc (fresh b)\<rparr>"
  by (simp add: on_def Let_def setAdd_def)

lemma on_old:
  "listeners b k = Some r \<Longrightarrow> fst (on k c b) = b\<lparr>sets := (sets b)(r := setAdd c (sets b r))\<rparr>"
  by (simp add: on_def Let_def)

lemma on_listeners: "listeners (fst (on k c b)) k \<noteq> None"
  by (simp add: on_def Let_def)

lemma snd_on: "snd (on k c b) = deleteListener k c"
  by (simp add: on_def Let_def)

lemma registered_on:
  "registered (fst (on k c b)) k =
     (if c \<in> set (registered b k) then registered b k else registered b k @ [c])"
  by (cases "listeners b k") (simp_all add: on_new on_old registered_def members_setAdd)

lemma registered_on_other:
  "wellFormed b \<Longrightarrow> k' \<noteq> k \<Longrightarrow> registered (fst (on k c b)) k' = registered b k'"
  by (cases "listeners b k"; cases "listeners b k'")
     (auto simp: on_def Let_def registered_def wellFormed_def)


lemma registered_deleteListener:
  "registered (deleteListener k c b) k = removeAll c (registered b k)"
  by (cases "listeners b k") (auto simp: deleteListener_def registered_def members_setDelete)

lemma registered_deleteListener_other:
  "wellFormed b \<Longrightarrow> k' \<noteq> k \<Longrightarrow> registered (deleteListener k c b) k' = registered b k'"
  by (cases "listeners b k"; cases "listeners b k'")
     (auto simp: deleteListener_def registered_def wellFormed_def)

lemma deleteListener_twice: "deleteListener k c (deleteListener k c b) = deleteListener k c b"
  by (cases "listeners b k") (auto simp: deleteListener_def setDelete_twice)

lemma on_other_listeners: "k' \<noteq> k \<Longrightarrow> listeners (fst (on k c b)) k' = listeners b k'"
  by (cases "listeners b k") (simp_all add: on_new on_old)

lemma on_other_sets:
  "wellFormed b \<Longrightarrow> listeners b k' = Some r \<Longrightarrow> k' \<noteq> k \<Longrightarrow> sets (fst (on k c b)) r = sets b r"
  by (cases "listeners b k") (auto simp: on_new on_old wellFormed_def)

lemma off_event_listeners: "listeners (off k None b) k' = (if k' = k then None else listeners b k')"
  by (simp add: off_def)

lemma off_event_sets: "sets (off k None b) = sets b"
  by (simp add: off_def)

lemma registered_off_event:
  "registered (off k None b) k' = (if k' = k then [] else registered b k')"
  by (simp add: registered_def off_event_listeners off_event_sets cong: option.case_cong)

lemma registered_off_callback:
  "registered (off k (Some c) b) k = removeAll c (registered b k)"
  by (simp add: off_def registered_deleteListener)

lemma registered_off_callback_other:
  "wellFormed b \<Longrightarrow> k' \<noteq> k \<Longrightarrow> registered (off k (Some c) b) k' = registered b k'"
  by (simp add: off_def registered_deleteListener_other)

subsection \<open>The invariant\<close>

lemma wellFormed_canvasEvents: "wellFormed canvasEvents"
  by (simp add: wellFormed_def canvasEvents_def)

lemma wellFormed_deleteListener: "wellFormed b \<Longrightarrow> wellFormed (deleteListener k c b)"
  by (cases "listeners b k") (auto simp: deleteListener_def wellFormed_def distinct_setDelete)

lemma wellFormed_on:
  assumes wf: "wellFormed b"
  shows "wellFormed (fst (on k c b))"
proof (cases "listeners b k")
  case None
  from wf have below: "\<And>k' r. listeners b k' = Some r \<Longrightarrow> r < fresh b"
    and dist: "\<And>k' r. listeners b k' = Some r \<Longrightarrow> distinct (members (sets b r))"
    and inj: "\<And>k1 k2 r. listeners b k1 = Some r \<Longrightarrow> listeners b k2 = Some r \<Longrightarrow> k1 = k2"
    unfolding wellFormed_def by blast+
  show ?thesis
    unfolding wellFormed_def on_new [OF None]
  proof (intro conjI allI impI)
    fix k' r
    assume "listeners (b\<lparr>listeners := (listeners b)(k \<mapsto> fresh b),
        sets := (sets b)(fresh b := [Some c]), fresh := Suc (fresh b)\<rparr>) k' = Some r"
    then have r: "(k' = k \<and> r = fresh b) \<or> (k' \<noteq> k \<and> listeners b k' = Some r)"
      by (auto split: if_splits)
    from r below show "r < fresh (b\<lparr>listeners := (listeners b)(k \<mapsto> fresh b),
        sets := (sets b)(fresh b := [Some c]), fresh := Suc (fresh b)\<rparr>)"
      by (auto simp: less_Suc_eq)
    from r below dist show "distinct (members (sets (b\<lparr>listeners := (listeners b)(k \<mapsto> fresh b),
        sets := (sets b)(fresh b := [Some c]), fresh := Suc (fresh b)\<rparr>) r))"
      by auto
  next
    fix k1 k2 r
    assume "listeners (b\<lparr>listeners := (listeners b)(k \<mapsto> fresh b),
        sets := (sets b)(fresh b := [Some c]), fresh := Suc (fresh b)\<rparr>) k1 = Some r"
      and "listeners (b\<lparr>listeners := (listeners b)(k \<mapsto> fresh b),
        sets := (sets b)(fresh b := [Some c]), fresh := Suc (fresh b)\<rparr>) k2 = Some r"
    then have "(k1 = k \<and> r = fresh b) \<or> (k1 \<noteq> k \<and> listeners b k1 = Some r)"
      and "(k2 = k \<and> r = fresh b) \<or> (k2 \<noteq> k \<and> listeners b k2 = Some r)"
      by (auto split: if_splits)
    with below inj show "k1 = k2" by (metis less_irrefl)
  qed
next
  case (Some r)
  from wf show ?thesis
    unfolding wellFormed_def on_old [OF Some] by (auto simp: distinct_setAdd)
qed

lemma wellFormed_off: "wellFormed b \<Longrightarrow> wellFormed (off k cb b)"
  by (cases cb) (auto simp: off_def wellFormed_deleteListener, auto simp: wellFormed_def split: if_splits)

lemma wellFormed_clear: "wellFormed b \<Longrightarrow> wellFormed (clear b)"
  by (simp add: clear_def wellFormed_def)

lemma built_wellFormed: "built b \<Longrightarrow> wellFormed b"
proof (induction rule: built.induct)
  case initial
  show ?case by (rule wellFormed_canvasEvents)
next
  case (subscribe b event callback)
  then show ?case by (simp add: wellFormed_on)
next
  case (unsubscribe b event callback b0)
  then show ?case by (simp add: snd_on wellFormed_deleteListener)
next
  case (off b event cb)
  then show ?case by (simp add: wellFormed_off)
next
  case (clear b)
  then show ?case by (simp add: wellFormed_clear)
qed

lemma distinct_registered: "wellFormed b \<Longrightarrow> distinct (registered b k)"
  by (cases "listeners b k") (auto simp: registered_def wellFormed_def)

subsection \<open>Dispatch\<close>

text \<open>The calls made so far are only carried along by the walk.\<close>

lemma forEach_acc_Some:
  assumes "forEach f r i called b = Some y"
  shows "forEach f r i (xs @ called) b = Some (xs @ fst y, snd y)"
proof (rule forEach.raw_induct [where P = "\<lambda>f r i called b y.
    forEach f r i (xs @ called) b = Some (xs @ fst y, snd y)", OF _ assms])
  fix walk :: "('a \<Rightarrow> 'a CanvasEventBus \<Rightarrow> ('b, 'a CanvasEventBus) completion) \<Rightarrow> nat \<Rightarrow> nat \<Rightarrow> 'a list
      \<Rightarrow> 'a CanvasEventBus \<Rightarrow> ('a list \<times> ('b, 'a CanvasEventBus) completion) option"
  fix f r i called b y
  assume IH: "\<And>f r i called b y. walk f r i called b = Some y \<Longrightarrow>
      forEach f r i (xs @ called) b = Some (xs @ fst y, snd y)"
    and body: "(if i < length (sets b r)
      then case sets b r ! i of None \<Rightarrow> walk f r (i + 1) called b
           | Some c \<Rightarrow>
               case f c b of
               Normal b' \<Rightarrow> walk f r (i + 1) (called @ [c]) b'
               | Throw e b' \<Rightarrow> Some (called @ [c], Throw e b')
      else Some (called, Normal b)) = Some y"
  show "forEach f r i (xs @ called) b = Some (xs @ fst y, snd y)"
  proof (cases "i < length (sets b r)")
    case False
    with body show ?thesis by (subst forEach.simps) auto
  next
    case i: True
    show ?thesis
    proof (cases "sets b r ! i")
      case None
      with body i have "walk f r (i + 1) called b = Some y" by simp
      from IH [OF this] None i show ?thesis by (subst forEach.simps) simp
    next
      case (Some c)
      show ?thesis
      proof (cases "f c b")
        case (Throw e b')
        with body i Some show ?thesis by (subst forEach.simps) auto
      next
        case (Normal b')
        with body i Some have "walk f r (i + 1) (called @ [c]) b' = Some y" by simp
        from IH [OF this] Normal Some i show ?thesis by (subst forEach.simps) simp
      qed
    qed
  qed
qed

lemma forEach_acc_back:
  assumes "forEach f r i zs b = Some y"
  shows "\<forall>ys. zs = xs @ ys \<longrightarrow> forEach f r i ys b = Some (drop (length xs) (fst y), snd y)"
proof (rule forEach.raw_induct [where P = "\<lambda>f r i zs b y.
    \<forall>ys. zs = xs @ ys \<longrightarrow> forEach f r i ys b = Some (drop (length xs) (fst y), snd y)", OF _ assms])
  fix walk :: "('a \<Rightarrow> 'a CanvasEventBus \<Rightarrow> ('b, 'a CanvasEventBus) completion) \<Rightarrow> nat \<Rightarrow> nat \<Rightarrow> 'a list
      \<Rightarrow> 'a CanvasEventBus \<Rightarrow> ('a list \<times> ('b, 'a CanvasEventBus) completion) option"
  fix f r i zs b y
  assume IH: "\<And>f r i zs b y. walk f r i zs b = Some y \<Longrightarrow>
      \<forall>ys. zs = xs @ ys \<longrightarrow> forEach f r i ys b = Some (drop (length xs) (fst y), snd y)"
    and body: "(if i < length (sets b r)
      then case sets b r ! i of None \<Rightarrow> walk f r (i + 1) zs b
           | Some c \<Rightarrow>
               case f c b of
               Normal b' \<Rightarrow> walk f r (i + 1) (zs @ [c]) b'
               | Throw e b' \<Rightarrow> Some (zs @ [c], Throw e b')
      else Some (zs, Normal b)) = Some y"
  show "\<forall>ys. zs = xs @ ys \<longrightarrow> forEach f r i ys b = Some (drop (length xs) (fst y), snd y)"
  proof (intro allI impI)
    fix ys assume zs: "zs = xs @ ys"
    show "forEach f r i ys b = Some (drop (length xs) (fst y), snd y)"
    proof (cases "i < length (sets b r)")
      case False
      with body zs show ?thesis by (subst forEach.simps) auto
    next
      case i: True
      show ?thesis
      proof (cases "sets b r ! i")
        case None
        with body i have "walk f r (i + 1) zs b = Some y" by simp
        from IH [OF this] zs None i show ?thesis by (subst forEach.simps) simp
      next
        case (Some c)
        show ?thesis
        proof (cases "f c b")
          case (Throw e b')
          with body i Some zs show ?thesis by (subst forEach.simps) auto
        next
          case (Normal b')
          with body i Some have "walk f r (i + 1) (zs @ [c]) b' = Some y" by simp
          from IH [OF this] zs have "forEach f r (i + 1) (ys @ [c]) b' = Some (drop (length xs) (fst y), snd y)"
            by simp
          with Normal Some i show ?thesis by (subst forEach.simps) simp
        qed
      qed
    qed
  qed
qed

lemma forEach_acc:
  "forEach f r i (xs @ ys) b = map_option (\<lambda>(called, res). (xs @ called, res)) (forEach f r i ys b)"
proof (cases "forEach f r i ys b")
  case (Some y)
  from forEach_acc_Some [OF this, of xs] Some show ?thesis by (simp add: split_beta)
next
  case None
  have "forEach f r i (xs @ ys) b = None"
  proof (cases "forEach f r i (xs @ ys) b")
    case (Some y)
    from forEach_acc_back [OF this, of xs] None show ?thesis by simp
  qed simp
  with None show ?thesis by simp
qed

text \<open>The dispatch in order.\<close>

lemma callInOrder_prefix: "prefix (fst (callInOrder body p cs s)) (map (\<lambda>c. (c, p)) cs)"
  by (induction cs arbitrary: s) (simp_all add: split_beta split: completion.splits)


lemma callInOrder_append:
  "callInOrder body p (xs @ ys) s =
     (case callInOrder body p xs s of
        (calls, Normal s') \<Rightarrow>
          (case callInOrder body p ys s' of (later, res) \<Rightarrow> (calls @ later, res))
      | (calls, Throw e s') \<Rightarrow> (calls, Throw e s'))"
proof (induction xs arbitrary: s)
  case Nil
  show ?case by (simp add: split_beta)
next
  case (Cons x xs)
  show ?case
  proof (cases "body x p s")
    case (Normal s1)
    then show ?thesis using Cons [of s1]
      by (cases "snd (callInOrder body p xs s1)") (simp_all add: split_beta)
  next
    case (Throw e s1)
    then show ?thesis by simp
  qed
qed

lemma callInOrder_returns:
  "\<forall>c\<in>set cs. \<forall>s. \<exists>s'. body c p s = Normal s' \<Longrightarrow>
     \<exists>s'. callInOrder body p cs s = (map (\<lambda>c. (c, p)) cs, Normal s')"
proof (induction cs arbitrary: s)
  case Nil
  show ?case by simp
next
  case (Cons c cs)
  from Cons.prems have "\<exists>s1. body c p s = Normal s1" by simp
  then obtain s1 where c: "body c p s = Normal s1" by blast
  from Cons.prems have "\<forall>c\<in>set cs. \<forall>s. \<exists>s'. body c p s = Normal s'" by simp
  from Cons.IH [OF this, of s1] obtain s' where "callInOrder body p cs s1 = (map (\<lambda>c. (c, p)) cs, Normal s')"
    by blast
  with c show ?case by simp
qed

lemma callInOrder_throws:
  assumes before: "callInOrder body p before s0 = (map (\<lambda>c. (c, p)) before, Normal s)"
    and throw: "body c p s = Throw e s'"
  shows "callInOrder body p (before @ c # after) s0 = (map (\<lambda>c. (c, p)) (before @ [c]), Throw e s')"
  using before throw by (simp add: callInOrder_append)

text \<open>
  The walk over a Set whose pending slots the callbacks leave alone is the dispatch in
  order over the members from index \<open>i\<close> on; when that ends normally the walk goes on
  behind the slots of the start.
\<close>

lemma pending_nth: "pending i s s0 \<Longrightarrow> i < length s0 \<Longrightarrow> s ! i = s0 ! i"
  by (simp add: pending_def)

lemma pending_Suc: "pending i s s0 \<Longrightarrow> pending (Suc i) s s0"
  by (simp add: pending_def)

lemma pending_refl: "pending i s s"
  by (simp add: pending_def)

lemma pending_length: "pending i s s0 \<Longrightarrow> length s0 \<le> length s"
  by (simp add: pending_def)

lemma forEach_keepsPending:
  assumes step: "\<And>i c s s'. i < length S \<Longrightarrow> S ! i = Some c \<Longrightarrow> I s \<Longrightarrow> pending i (sets s r) S
                   \<Longrightarrow> body c p s = Normal s' \<Longrightarrow> I s' \<and> pending (Suc i) (sets s' r) S"
  shows "I b \<Longrightarrow> pending i (sets b r) S \<Longrightarrow> i \<le> length S \<Longrightarrow>
     (case callInOrder body p (members (drop i S)) b of
        (calls, Throw e s') \<Rightarrow>
          forEach (\<lambda>callback. body callback p) r i called b = Some (called @ map fst calls, Throw e s')
      | (calls, Normal s1) \<Rightarrow>
          I s1 \<and> pending (length S) (sets s1 r) S \<and>
          forEach (\<lambda>callback. body callback p) r i called b
            = forEach (\<lambda>callback. body callback p) r (length S) (called @ map fst calls) s1)"
proof (induction "length S - i" arbitrary: i called b)
  case 0
  then have "i = length S" by simp
  with 0 show ?case by simp
next
  case (Suc n)
  then have i: "i < length S" and n: "n = length S - Suc i" and le: "Suc i \<le> length S"
    by simp_all
  from Suc.prems(2) i have len: "i < length (sets b r)"
    using pending_length [OF Suc.prems(2)] by simp
  from Suc.prems(2) i have slot: "sets b r ! i = S ! i" by (rule pending_nth)
  show ?case
  proof (cases "S ! i")
    case None
    then have skip: "forEach (\<lambda>callback. body callback p) r i called b
        = forEach (\<lambda>callback. body callback p) r (Suc i) called b"
      using len slot by (subst forEach.simps) simp
    have same: "members (drop i S) = members (drop (Suc i) S)"
      using i None by (rule members_drop_None)
    show ?thesis
      unfolding skip same
      by (rule Suc.hyps(1) [OF n Suc.prems(1) pending_Suc [OF Suc.prems(2)] le])
  next
    case (Some c)
    have drop: "members (drop i S) = c # members (drop (Suc i) S)"
      using i Some by (rule members_drop_Some)
    show ?thesis
    proof (cases "body c p b")
      case (Throw e b')
      then have "forEach (\<lambda>callback. body callback p) r i called b = Some (called @ [c], Throw e b')"
        using len slot Some by (subst forEach.simps) simp
      with Throw drop show ?thesis by simp
    next
      case (Normal b')
      then have unfold: "forEach (\<lambda>callback. body callback p) r i called b
          = forEach (\<lambda>callback. body callback p) r (Suc i) (called @ [c]) b'"
        using len slot Some by (subst forEach.simps) simp
      from step [OF i Some Suc.prems(1) Suc.prems(2) Normal]
      have b': "I b'" "pending (Suc i) (sets b' r) S" by simp_all
      note IH = Suc.hyps(1) [OF n b' le, of "called @ [c]"]
      obtain calls res where rest: "callInOrder body p (members (drop (Suc i) S)) b' = (calls, res)"
        by (cases "callInOrder body p (members (drop (Suc i) S)) b'")
      show ?thesis
      proof (cases res)
        case (Throw e s')
        with IH rest Normal drop show ?thesis unfolding unfold by simp
      next
        case N: (Normal s1)
        with IH rest Normal drop show ?thesis unfolding unfold by simp
      qed
    qed
  qed
qed

lemma pairs_of_calls:
  "prefix calls (map (\<lambda>c. (c, p)) cs) \<Longrightarrow> map (\<lambda>c. (c, p)) (map fst calls) = calls"
proof -
  assume "prefix calls (map (\<lambda>c. (c, p)) cs)"
  then obtain xs where "calls = map (\<lambda>c. (c, p)) xs" by (auto dest: prefix_map_rightE)
  then show ?thesis by (simp add: comp_def)
qed

lemma walkFrom_end: "length (sets b r) \<le> i \<Longrightarrow> walkFrom body p r i b = Some ([], Normal b)"
  unfolding walkFrom_def by (subst forEach.simps) simp

lemma emit_keepsPending:
  assumes u: "keepsPending body k p I b"
  shows "case callInOrder body p (registered b k) b of
      (calls, Throw e s') \<Rightarrow> emit body k p b = Some (calls, Throw e s')
    | (calls, Normal s1) \<Rightarrow>
        I s1 \<and>
        (case listeners b k of
           None \<Rightarrow> emit body k p b = Some (calls, Normal s1)
         | Some r \<Rightarrow>
             pending (length (sets b r)) (sets s1 r) (sets b r) \<and>
             emit body k p b
               = map_option (\<lambda>(later, res). (calls @ later, res))
                   (walkFrom body p r (length (sets b r)) s1))"
proof (cases "listeners b k")
  case None
  with u show ?thesis by (simp add: emit_def registered_def keepsPending_def)
next
  case (Some r)
  from u have start: "I b"
    and all: "\<forall>r i c s s'. listeners b k = Some r \<longrightarrow> i < length (sets b r) \<longrightarrow>
        sets b r ! i = Some c \<longrightarrow> I s \<longrightarrow> pending i (sets s r) (sets b r) \<longrightarrow>
        body c p s = Normal s' \<longrightarrow> I s' \<and> pending (Suc i) (sets s' r) (sets b r)"
    unfolding keepsPending_def by blast+
  have step: "I s' \<and> pending (Suc i) (sets s' r) (sets b r)"
    if "i < length (sets b r)" "sets b r ! i = Some c" "I s" "pending i (sets s r) (sets b r)"
      "body c p s = Normal s'"
    for i c s s'
    using all [rule_format, OF Some that] .
  have reg: "registered b k = members (sets b r)" using Some by (simp add: registered_def)
  have walk: "case callInOrder body p (members (drop 0 (sets b r))) b of
        (calls, Throw e s') \<Rightarrow>
          forEach (\<lambda>callback. body callback p) r 0 [] b = Some ([] @ map fst calls, Throw e s')
      | (calls, Normal s1) \<Rightarrow>
          I s1 \<and> pending (length (sets b r)) (sets s1 r) (sets b r) \<and>
          forEach (\<lambda>callback. body callback p) r 0 [] b
            = forEach (\<lambda>callback. body callback p) r (length (sets b r)) ([] @ map fst calls) s1"
  proof (rule forEach_keepsPending [where I = I])
    show "I b" by (rule start)
    show "pending 0 (sets b r) (sets b r)" by (rule pending_refl)
    show "0 \<le> length (sets b r)" by simp
  qed (rule step)
  obtain calls res where run: "callInOrder body p (registered b k) b = (calls, res)"
    by (cases "callInOrder body p (registered b k) b")
  have "prefix calls (map (\<lambda>c. (c, p)) (registered b k))"
    using callInOrder_prefix [of body p "registered b k" b] run by simp
  then have pairs: "map (\<lambda>c. (c, p)) (map fst calls) = calls" by (rule pairs_of_calls)
  show ?thesis
  proof (cases res)
    case (Throw e s')
    with walk run reg pairs Some show ?thesis by (simp add: emit_def)
  next
    case (Normal s1)
    with walk run reg have inv: "I s1" and pend: "pending (length (sets b r)) (sets s1 r) (sets b r)"
      and eq: "forEach (\<lambda>callback. body callback p) r 0 [] b
            = forEach (\<lambda>callback. body callback p) r (length (sets b r)) (map fst calls @ []) s1"
      by simp_all
    have "emit body k p b
        = map_option (\<lambda>(called, res). (map (\<lambda>c. (c, p)) called, res))
            (forEach (\<lambda>callback. body callback p) r 0 [] b)"
      using Some by (simp add: emit_def)
    also have "\<dots> = map_option (\<lambda>(called, res). (map (\<lambda>c. (c, p)) called, res))
            (map_option (\<lambda>(called, res). (map fst calls @ called, res))
               (forEach (\<lambda>callback. body callback p) r (length (sets b r)) [] s1))"
      unfolding eq forEach_acc ..
    also have "\<dots> = map_option (\<lambda>(later, res). (calls @ later, res))
            (walkFrom body p r (length (sets b r)) s1)"
      using pairs unfolding walkFrom_def
      by (simp add: option.map_comp comp_def split_beta)
    finally have "emit body k p b
        = map_option (\<lambda>(later, res). (calls @ later, res)) (walkFrom body p r (length (sets b r)) s1)" .
    with inv pend run Normal Some show ?thesis by simp
  qed
qed

lemma emit_adds_nothing:
  assumes u: "keepsPending body k p I b" and n: "addsNothing I k b"
  shows "emit body k p b = Some (callInOrder body p (registered b k) b)"
proof -
  obtain calls res where run: "callInOrder body p (registered b k) b = (calls, res)"
    by (cases "callInOrder body p (registered b k) b")
  show ?thesis
  proof (cases res)
    case (Throw e s')
    with emit_keepsPending [OF u] run show ?thesis by simp
  next
    case (Normal s1)
    with emit_keepsPending [OF u] run have inv: "I s1"
      and rest: "case listeners b k of
           None \<Rightarrow> emit body k p b = Some (calls, Normal s1)
         | Some r \<Rightarrow>
             pending (length (sets b r)) (sets s1 r) (sets b r) \<and>
             emit body k p b
               = map_option (\<lambda>(later, res). (calls @ later, res))
                   (walkFrom body p r (length (sets b r)) s1)"
      by simp_all
    show ?thesis
    proof (cases "listeners b k")
      case None
      with rest run Normal show ?thesis by simp
    next
      case (Some r)
      from n inv Some have "length (sets s1 r) = length (sets b r)" by (simp add: addsNothing_def)
      then have "walkFrom body p r (length (sets b r)) s1 = Some ([], Normal s1)"
        by (simp add: walkFrom_end)
      with rest Some run Normal show ?thesis by simp
    qed
  qed
qed

lemma emit_without_listeners: "registered b k = [] \<Longrightarrow> emit body k p b = Some ([], Normal b)"
proof -
  assume none: "registered b k = []"
  have no_slot: False if r: "listeners b k = Some r" and i: "i < length (sets b r)"
    and c: "sets b r ! i = Some c" for r i c
  proof -
    from i c have "Some c \<in> set (sets b r)" by (metis nth_mem)
    then have "c \<in> set (registered b k)" using r by (simp add: registered_def set_members)
    with none show False by simp
  qed
  have "keepsPending body k p (\<lambda>s. s = b) b"
    unfolding keepsPending_def using no_slot by blast
  moreover have "addsNothing (\<lambda>s. s = b) k b" by (simp add: addsNothing_def)
  ultimately have "emit body k p b = Some (callInOrder body p (registered b k) b)"
    by (rule emit_adds_nothing)
  with none show ?thesis by simp
qed






text \<open>
  Two kinds of callback that leave the pending slots alone: one that, when it returns,
  has not changed the bus, and one that unsubscribes itself.
\<close>

lemma keepsPending_quiet:
  assumes start: "I b" and quiet: "\<And>c s s'. body c p s = Normal s' \<Longrightarrow> s' = s"
  shows "keepsPending body k p I b"
  unfolding keepsPending_def
proof (intro conjI allI impI)
  fix r i c s s'
  assume "I s" "pending i (sets s r) (sets b r)" "body c p s = Normal s'"
  with quiet [of c s s'] show "I s'" "pending (Suc i) (sets s' r) (sets b r)"
    by (simp_all add: pending_Suc)
qed (rule start)

lemma later_slots_differ:
  assumes d: "distinct (members S)" and i: "i < length S" and c: "S ! i = Some c"
  shows "Some c \<notin> set (drop (Suc i) S)"
proof -
  have "S = take i S @ Some c # drop (Suc i) S"
    using i c by (metis id_take_nth_drop)
  then have "members S = members (take i S) @ c # members (drop (Suc i) S)"
    by (metis members_append members.simps(3))
  with d have "c \<notin> set (members (drop (Suc i) S))" by simp
  then show ?thesis by (simp add: set_members)
qed

lemma keepsPending_unsubscribing:
  assumes wf: "wellFormed b" and r: "listeners b k = Some r"
  shows "keepsPending (\<lambda>c data s. Normal (off k (Some c) s)) k p
           (\<lambda>s. listeners s k = Some r \<and> length (sets s r) = length (sets b r)) b"
  unfolding keepsPending_def
proof (intro conjI allI impI)
  show "listeners b k = Some r" by (rule r)
  show "length (sets b r) = length (sets b r)" by (rule refl)
next
  fix r' i c s and s' :: "'a CanvasEventBus"
  assume r': "listeners b k = Some r'" and i: "i < length (sets b r')"
    and c: "sets b r' ! i = Some c"
    and inv: "listeners s k = Some r \<and> length (sets s r) = length (sets b r)"
    and pend: "pending i (sets s r') (sets b r')"
    and call: "(Normal (off k (Some c) s) :: ('e, 'a CanvasEventBus) completion) = Normal s'"
  from r r' have same: "r' = r" by simp
  from call have s': "s' = deleteListener k c s" by (simp add: off_def)
  from inv have at: "listeners s k = Some r" and len: "length (sets s r) = length (sets b r)"
    by simp_all
  have slots: "sets s' r' = setDelete c (sets s r')"
    using s' at same by (simp add: deleteListener_def)
  from s' at show "listeners s' k = Some r" by (simp add: deleteListener_def)
  from slots len same show "length (sets s' r) = length (sets b r)" by (simp add: setDelete_def)
  from wf r' have "distinct (members (sets b r'))" by (auto simp: wellFormed_def)
  from later_slots_differ [OF this i c] have later: "Some c \<notin> set (drop (Suc i) (sets b r'))" .
  show "pending (Suc i) (sets s' r') (sets b r')"
    unfolding pending_def slots
  proof (intro conjI allI impI)
    show "length (sets b r') \<le> length (setDelete c (sets s r'))"
      using len same by (simp add: setDelete_def)
  next
    fix j assume j: "Suc i \<le> j" "j < length (sets b r')"
    then have old: "sets s r' ! j = sets b r' ! j" using pend by (simp add: pending_def)
    have "drop (Suc i) (sets b r') ! (j - Suc i) = sets b r' ! j"
      using j by simp
    moreover have "j - Suc i < length (drop (Suc i) (sets b r'))"
      using j by simp
    ultimately have "sets b r' ! j \<in> set (drop (Suc i) (sets b r'))"
      by (metis nth_mem)
    with later have "sets b r' ! j \<noteq> Some c" by auto
    with old j len same show "setDelete c (sets s r') ! j = sets b r' ! j"
      by (simp add: setDelete_def)
  qed
qed


lemma pending_setAdd: "pending i s s0 \<Longrightarrow> pending i (setAdd c s) s0"
  by (auto simp: pending_def setAdd_def nth_append)




lemma distinct_of_prefix: "prefix xs ys \<Longrightarrow> distinct ys \<Longrightarrow> distinct xs"
  by (auto simp: prefix_def)

subsection \<open>The sample buses\<close>

lemma twoListeners_eq:
  "twoListeners = \<lparr>listeners = [DeleteCharacter \<mapsto> 0], sets = (\<lambda>r. [])(0 := [Some 1, Some 2]), fresh = 1\<rparr>"
  by (simp add: twoListeners_def oneListener_def on_def canvasEvents_def Let_def setAdd_def)

lemma registered_twoListeners: "registered twoListeners DeleteCharacter = [1, 2]"
  by (simp add: twoListeners_eq registered_def)

lemma wellFormed_twoListeners: "wellFormed twoListeners"
  unfolding twoListeners_def oneListener_def by (intro wellFormed_on wellFormed_canvasEvents)

lemma emit_firstThrows:
  "emit firstThrows DeleteCharacter 7 twoListeners = Some ([(1, 7)], Throw ''failed'' twoListeners)"
  by (simp add: emit_def twoListeners_eq forEach.simps firstThrows_def)

lemma emit_firstUnsubscribesSecond:
  "emit firstUnsubscribesSecond DeleteCharacter 7 twoListeners =
     Some ([(1, 7)], Normal (off DeleteCharacter (Some 2) twoListeners))"
  by (simp add: emit_def twoListeners_eq forEach.simps firstUnsubscribesSecond_def off_def
      deleteListener_def setDelete_def)


lemma threeListeners_eq:
  "threeListeners =
     \<lparr>listeners = [DeleteCharacter \<mapsto> 0, EditShot \<mapsto> 1],
      sets = (\<lambda>r. [])(0 := [Some 1, Some 2], 1 := [Some 3]), fresh = 2\<rparr>"
  by (simp add: threeListeners_def twoListeners_eq on_def Let_def setAdd_def)

lemma registered_threeListeners:
  "registered threeListeners DeleteCharacter = [1, 2]" "registered threeListeners EditShot = [3]"
  by (simp_all add: threeListeners_eq registered_def)

lemma wellFormed_threeListeners: "wellFormed threeListeners"
  unfolding threeListeners_def by (intro wellFormed_on wellFormed_twoListeners)

lemma allCancelled_eq:
  "allCancelled = \<lparr>listeners = [DeleteShot \<mapsto> 0], sets = (\<lambda>r. [])(0 := [None]), fresh = 1\<rparr>"
  by (simp add: allCancelled_def on_def canvasEvents_def Let_def setAdd_def deleteListener_def
      setDelete_def)

lemma atZero_twoListeners: "atZero twoListeners"
  by (simp add: atZero_def twoListeners_eq)

lemma twoSlots_twoListeners: "twoSlots twoListeners"
  by (simp add: twoSlots_def twoListeners_eq)

lemma keepsPending_firstThrows: "keepsPending firstThrows DeleteCharacter 7 atZero twoListeners"
proof (rule keepsPending_quiet)
  show "atZero twoListeners" by (rule atZero_twoListeners)
next
  fix c s s'
  assume "firstThrows c 7 s = Normal s'"
  then show "s' = s" by (simp add: firstThrows_def split: if_splits)
qed

lemma keepsPending_unsubscribesItself:
  "keepsPending unsubscribesItself DeleteCharacter 7 twoSlots twoListeners"
proof -
  have r: "listeners twoListeners DeleteCharacter = Some 0" by (simp add: twoListeners_eq)
  have body: "unsubscribesItself = (\<lambda>c data s. Normal (off DeleteCharacter (Some c) s))"
    by (intro ext) (simp add: unsubscribesItself_def)
  have inv: "twoSlots = (\<lambda>s. listeners s DeleteCharacter = Some 0
      \<and> length (sets s 0) = length (sets twoListeners 0))"
    by (intro ext) (simp add: twoSlots_def twoListeners_eq numeral_2_eq_2)
  show ?thesis
    unfolding body inv by (rule keepsPending_unsubscribing [OF wellFormed_twoListeners r])
qed



lemma keepsPending_firstSubscribesThird:
  "keepsPending firstSubscribesThird DeleteCharacter 7 atZero twoListeners"
  unfolding keepsPending_def
proof (intro conjI allI impI)
  show "atZero twoListeners" by (rule atZero_twoListeners)
next
  fix r i c s s'
  assume r: "listeners twoListeners DeleteCharacter = Some r"
    and inv: "atZero s" and pend: "pending i (sets s r) (sets twoListeners r)"
    and call: "firstSubscribesThird c 7 s = Normal s'"
  from r have r0: "r = 0" by (simp add: twoListeners_eq)
  from inv have at: "listeners s DeleteCharacter = Some 0" by (simp add: atZero_def)
  show "atZero s'"
    using call at by (auto simp: firstSubscribesThird_def atZero_def on_old split: if_splits)
  have "sets s' r = sets s r \<or> sets s' r = setAdd 3 (sets s r)"
    using call at r0 by (auto simp: firstSubscribesThird_def on_old split: if_splits)
  with pend show "pending (Suc i) (sets s' r) (sets twoListeners r)"
    by (auto simp: pending_Suc pending_setAdd)
qed

lemma callInOrder_unsubscribesItself:
  "callInOrder unsubscribesItself 7 [1, 2] twoListeners =
     ([(1, 7), (2, 7)],
      Normal (off DeleteCharacter (Some 2) (off DeleteCharacter (Some 1) twoListeners)))"
  by (simp add: unsubscribesItself_def)

lemma callInOrder_firstThrows:
  "callInOrder firstThrows 7 [1, 2] twoListeners = ([(1, 7)], Throw ''failed'' twoListeners)"
  by (simp add: firstThrows_def)

lemma callInOrder_firstSubscribesThird:
  "callInOrder firstSubscribesThird 7 [1, 2] twoListeners =
     ([(1, 7), (2, 7)], Normal (fst (on DeleteCharacter 3 twoListeners)))"
  by (simp add: firstSubscribesThird_def)

lemma walkFrom_third:
  "walkFrom firstSubscribesThird 7 0 2 (fst (on DeleteCharacter 3 twoListeners)) =
     Some ([(3, 7)], Normal (fst (on DeleteCharacter 3 twoListeners)))"
  by (simp add: walkFrom_def twoListeners_eq on_def Let_def setAdd_def forEach.simps
      firstSubscribesThird_def)

text \<open>
  A callback that unsubscribes and subscribes itself again moves to the end of the Set
  each time it is called, so the walk meets it again and again: \<^verbatim>\<open>emit\<close> never returns.
\<close>

lemma setDelete_last: "setDelete c (replicate i None @ [Some c]) = replicate (Suc i) None"
  by (simp add: setDelete_def replicate_append_same)

lemma setAdd_empty_slots: "setAdd c (replicate i None) = replicate i None @ [Some c]"
  by (simp add: setAdd_def)

lemma resubscribes_step:
  assumes at: "listeners b DeleteCharacter = Some 0" and slots: "sets b 0 = replicate i None @ [Some c]"
  shows "\<exists>b'. resubscribes c d b = Normal b' \<and> listeners b' DeleteCharacter = Some 0 \<and>
           sets b' 0 = replicate (Suc i) None @ [Some c]"
  using at slots unfolding resubscribes_def
  by (simp add: off_def deleteListener_def on_def Let_def setDelete_last setAdd_empty_slots
      del: replicate.simps)

lemma forEach_resubscribes_never:
  assumes returns: "forEach f r i called b = Some y"
  shows "\<not> (f = (\<lambda>c. resubscribes c d) \<and> r = 0 \<and> listeners b DeleteCharacter = Some 0 \<and>
        sets b 0 = replicate i None @ [Some 1])"
proof (rule forEach.raw_induct [where P = "\<lambda>f r i called b y.
    \<not> (f = (\<lambda>c. resubscribes c d) \<and> r = 0 \<and> listeners b DeleteCharacter = Some 0 \<and>
        sets b 0 = replicate i None @ [Some 1])", OF _ returns])
  fix walk :: "(nat \<Rightarrow> nat CanvasEventBus \<Rightarrow> (string, nat CanvasEventBus) completion) \<Rightarrow> nat \<Rightarrow> nat \<Rightarrow> nat list
      \<Rightarrow> nat CanvasEventBus \<Rightarrow> (nat list \<times> (string, nat CanvasEventBus) completion) option"
  fix f r i called b y
  assume IH: "\<And>f r i called b y. walk f r i called b = Some y \<Longrightarrow>
      \<not> (f = (\<lambda>c. resubscribes c d) \<and> r = 0 \<and> listeners b DeleteCharacter = Some 0 \<and>
        sets b 0 = replicate i None @ [Some 1])"
    and body: "(if i < length (sets b r)
      then case sets b r ! i of None \<Rightarrow> walk f r (i + 1) called b
           | Some c \<Rightarrow>
               case f c b of
               Normal b' \<Rightarrow> walk f r (i + 1) (called @ [c]) b'
               | Throw e b' \<Rightarrow> Some (called @ [c], Throw e b')
      else Some (called, Normal b)) = Some y"
  show "\<not> (f = (\<lambda>c. resubscribes c d) \<and> r = 0 \<and> listeners b DeleteCharacter = Some 0 \<and>
        sets b 0 = replicate i None @ [Some 1])"
  proof
    assume inv: "f = (\<lambda>c. resubscribes c d) \<and> r = 0 \<and> listeners b DeleteCharacter = Some 0 \<and>
        sets b 0 = replicate i None @ [Some 1]"
    then have at: "listeners b DeleteCharacter = Some 0"
      and slots: "sets b 0 = replicate i None @ [Some 1]" by simp_all
    from resubscribes_step [OF at slots, of d] obtain b'
      where call: "resubscribes 1 d b = Normal b'"
        and at': "listeners b' DeleteCharacter = Some 0"
        and slots': "sets b' 0 = replicate (Suc i) None @ [Some 1]" by blast
    from body inv call have "walk f r (i + 1) (called @ [1]) b' = Some y"
      by (simp add: nth_append)
    from IH [OF this] inv at' slots' show False by simp
  qed
qed

lemma emit_resubscribes_never_returns: "emit resubscribes DeleteCharacter 7 oneListener = None"
proof -
  have one: "oneListener = \<lparr>listeners = [DeleteCharacter \<mapsto> 0], sets = (\<lambda>r. [])(0 := [Some 1]), fresh = 1\<rparr>"
    by (simp add: oneListener_def on_def canvasEvents_def Let_def setAdd_def)
  have "forEach (\<lambda>c. resubscribes c 7) 0 0 [] oneListener = None"
  proof (cases "forEach (\<lambda>c. resubscribes c 7) 0 0 [] oneListener")
    case (Some y)
    from forEach_resubscribes_never [OF Some, of 7] show ?thesis by (simp add: one)
  qed simp
  then show ?thesis by (simp add: emit_def one)
qed

subsection \<open>Claims about the event bus\<close>

text \<open>
  C2 as stated fails: with two callbacks registered for an event, the first of which
  throws, \<^verbatim>\<open>emit\<close> calls the first and is left by the exception; the second callback is
  registered and is not called.
\<close>

theorem emit_dispatch_counterexample:
  "registered twoListeners DeleteCharacter = [1, 2] \<and>
   emit firstThrows DeleteCharacter 7 twoListeners = Some ([(1, 7)], Throw ''failed'' twoListeners)"
  by (simp add: registered_twoListeners emit_firstThrows)

text \<open>
  The same happens without an exception when the first callback unsubscribes the second
  (\<open>emit_firstUnsubscribesSecond\<close>). A callback that unsubscribes itself, or one that
  subscribes another callback, does not stand in the way of the others.
\<close>

text \<open>
  C2, as amended. On a bus built by the operations, when no callback, while the dispatch
  runs, removes from the Set of the event a callback that was in it when \<^verbatim>\<open>emit\<close> was
  called and has not been called yet: \<^verbatim>\<open>emit\<close> begins with the dispatch in order over
  the callbacks registered for the event, which are pairwise distinct, so each is called
  once at most, in registration order, with the data, up to the first that throws. When one
  throws, these are all the calls and the exception leaves \<^verbatim>\<open>emit\<close>. When none throws,
  \<^verbatim>\<open>emit\<close> goes on with the callbacks that have been added to the Set meanwhile; when
  none has been added, \<^verbatim>\<open>emit\<close> has called every registered callback exactly once and
  ends normally.
\<close>

theorem emit_dispatch:
  assumes wf: "wellFormed b" and u: "keepsPending body k p I b"
  shows "distinct (registered b k) \<and>
     prefix (fst (callInOrder body p (registered b k) b)) (map (\<lambda>c. (c, p)) (registered b k)) \<and>
     (\<forall>calls e s'. callInOrder body p (registered b k) b = (calls, Throw e s') \<longrightarrow>
        emit body k p b = Some (calls, Throw e s')) \<and>
     (\<forall>calls s1. callInOrder body p (registered b k) b = (calls, Normal s1) \<longrightarrow>
        (case listeners b k of
           None \<Rightarrow> emit body k p b = Some (calls, Normal s1)
         | Some r \<Rightarrow>
             emit body k p b
               = map_option (\<lambda>(later, res). (calls @ later, res))
                   (walkFrom body p r (length (sets b r)) s1) \<and>
             (length (sets s1 r) = length (sets b r) \<longrightarrow>
                emit body k p b = Some (calls, Normal s1)))) \<and>
     ((\<forall>c\<in>set (registered b k). \<forall>s. \<exists>s'. body c p s = Normal s') \<longrightarrow>
        (\<exists>s1. callInOrder body p (registered b k) b
                = (map (\<lambda>c. (c, p)) (registered b k), Normal s1))) \<and>
     (\<forall>before c after s e s'.
        registered b k = before @ c # after \<and>
        callInOrder body p before b = (map (\<lambda>c. (c, p)) before, Normal s) \<and>
        body c p s = Throw e s' \<longrightarrow>
        emit body k p b = Some (map (\<lambda>c. (c, p)) (before @ [c]), Throw e s'))"
proof (intro conjI allI impI)
  note run = emit_keepsPending [OF u]
  show "distinct (registered b k)" using wf by (rule distinct_registered)
  show "prefix (fst (callInOrder body p (registered b k) b)) (map (\<lambda>c. (c, p)) (registered b k))"
    by (rule callInOrder_prefix)
  {
    fix calls e s'
    assume "callInOrder body p (registered b k) b = (calls, Throw e s')"
    with run show "emit body k p b = Some (calls, Throw e s')" by simp
  } note throws = this
  {
    fix calls s1
    assume normal: "callInOrder body p (registered b k) b = (calls, Normal s1)"
    show "case listeners b k of
           None \<Rightarrow> emit body k p b = Some (calls, Normal s1)
         | Some r \<Rightarrow>
             emit body k p b
               = map_option (\<lambda>(later, res). (calls @ later, res))
                   (walkFrom body p r (length (sets b r)) s1) \<and>
             (length (sets s1 r) = length (sets b r) \<longrightarrow>
                emit body k p b = Some (calls, Normal s1))"
    proof (cases "listeners b k")
      case None
      with run normal show ?thesis by simp
    next
      case (Some r)
      with run normal have eq: "emit body k p b
               = map_option (\<lambda>(later, res). (calls @ later, res))
                   (walkFrom body p r (length (sets b r)) s1)" by simp
      then show ?thesis using Some by (simp add: walkFrom_end)
    qed
  }
  {
    assume "\<forall>c\<in>set (registered b k). \<forall>s. \<exists>s'. body c p s = Normal s'"
    then show "\<exists>s1. callInOrder body p (registered b k) b
                = (map (\<lambda>c. (c, p)) (registered b k), Normal s1)"
      by (rule callInOrder_returns)
  }
  fix before c after s e s'
  assume "registered b k = before @ c # after \<and>
        callInOrder body p before b = (map (\<lambda>c. (c, p)) before, Normal s) \<and>
        body c p s = Throw e s'"
  then have reg: "registered b k = before @ c # after"
    and before: "callInOrder body p before b = (map (\<lambda>c. (c, p)) before, Normal s)"
    and throw: "body c p s = Throw e s'" by simp_all
  from callInOrder_throws [OF before throw, of after]
  have "callInOrder body p (registered b k) b = (map (\<lambda>c. (c, p)) (before @ [c]), Throw e s')"
    unfolding reg .
  then show "emit body k p b = Some (map (\<lambda>c. (c, p)) (before @ [c]), Throw e s')"
    by (rule throws)
qed

theorem emit_dispatch_witness:
  "wellFormed twoListeners \<and>
   keepsPending unsubscribesItself DeleteCharacter 7 twoSlots twoListeners \<and>
   emit unsubscribesItself DeleteCharacter 7 twoListeners =
     Some ([(1, 7), (2, 7)],
           Normal (off DeleteCharacter (Some 2) (off DeleteCharacter (Some 1) twoListeners))) \<and>
   keepsPending firstThrows DeleteCharacter 7 atZero twoListeners \<and>
   emit firstThrows DeleteCharacter 7 twoListeners = Some ([(1, 7)], Throw ''failed'' twoListeners) \<and>
   keepsPending firstSubscribesThird DeleteCharacter 7 atZero twoListeners \<and>
   emit firstSubscribesThird DeleteCharacter 7 twoListeners =
     Some ([(1, 7), (2, 7), (3, 7)], Normal (fst (on DeleteCharacter 3 twoListeners)))"
proof -
  have r: "listeners twoListeners DeleteCharacter = Some 0" by (simp add: twoListeners_eq)
  have two: "length (sets twoListeners 0) = 2" by (simp add: twoListeners_eq)
  have quietly: "callInOrder unsubscribesItself 7 (registered twoListeners DeleteCharacter) twoListeners
      = ([(1, 7), (2, 7)],
         Normal (off DeleteCharacter (Some 2) (off DeleteCharacter (Some 1) twoListeners)))"
    by (simp only: registered_twoListeners callInOrder_unsubscribesItself)
  have loudly: "callInOrder firstThrows 7 (registered twoListeners DeleteCharacter) twoListeners
      = ([(1, 7)], Throw ''failed'' twoListeners)"
    by (simp only: registered_twoListeners callInOrder_firstThrows)
  have growing: "callInOrder firstSubscribesThird 7 (registered twoListeners DeleteCharacter) twoListeners
      = ([(1, 7), (2, 7)], Normal (fst (on DeleteCharacter 3 twoListeners)))"
    by (simp only: registered_twoListeners callInOrder_firstSubscribesThird)
  note quiet = emit_dispatch [OF wellFormed_twoListeners keepsPending_unsubscribesItself,
      THEN conjunct2, THEN conjunct2, THEN conjunct2, THEN conjunct1, rule_format, OF quietly]
  note loud = emit_dispatch [OF wellFormed_twoListeners keepsPending_firstThrows,
      THEN conjunct2, THEN conjunct2, THEN conjunct1, rule_format, OF loudly]
  note grows = emit_dispatch [OF wellFormed_twoListeners keepsPending_firstSubscribesThird,
      THEN conjunct2, THEN conjunct2, THEN conjunct2, THEN conjunct1, rule_format, OF growing]
  have same: "length (sets (off DeleteCharacter (Some 2) (off DeleteCharacter (Some 1) twoListeners)) 0)
      = length (sets twoListeners 0)"
    by (simp add: off_def deleteListener_def setDelete_def twoListeners_eq)
  have "emit unsubscribesItself DeleteCharacter 7 twoListeners =
     Some ([(1, 7), (2, 7)],
           Normal (off DeleteCharacter (Some 2) (off DeleteCharacter (Some 1) twoListeners)))"
    by (rule quiet [unfolded r option.case, THEN conjunct2, THEN mp, OF same])
  moreover have "emit firstSubscribesThird DeleteCharacter 7 twoListeners =
     Some ([(1, 7), (2, 7), (3, 7)], Normal (fst (on DeleteCharacter 3 twoListeners)))"
    using grows [unfolded r option.case, THEN conjunct1] by (simp add: two walkFrom_third)
  ultimately show ?thesis
    using wellFormed_twoListeners keepsPending_unsubscribesItself keepsPending_firstThrows
      keepsPending_firstSubscribesThird loud
    by (intro conjI)
qed

text \<open>
  C8. When no callback is registered for the event, because the Map has no Set for it or
  because every callback of its Set has been removed, \<^verbatim>\<open>emit\<close> returns normally, has
  called nothing and leaves the bus as it was.
\<close>

theorem emit_no_listeners:
  "registered b k = [] \<Longrightarrow> emit body k p b = Some ([], Normal b)"
  by (rule emit_without_listeners)

theorem emit_no_listeners_witness:
  "registered allCancelled DeleteShot = [] \<and> listeners allCancelled DeleteShot = Some 0 \<and>
   emit firstThrows DeleteShot 7 allCancelled = Some ([], Normal allCancelled)"
proof -
  have none: "registered allCancelled DeleteShot = []"
    by (simp add: allCancelled_eq registered_def)
  have "listeners allCancelled DeleteShot = Some 0" by (simp add: allCancelled_eq)
  with none emit_no_listeners [OF none, of firstThrows 7] show ?thesis by simp
qed




text \<open>
  C5. The function that \<^verbatim>\<open>on\<close> returns, called on any later bus: a second call changes
  nothing more; the first takes the callback, and nothing else, out of the callbacks of
  the event, and on a bus built by the operations it leaves the callbacks of every other
  event as they were.
\<close>

theorem cancel_twice:
  assumes reg: "on k c b = (b', cancel)"
  shows "cancel (cancel s) = cancel s \<and>
     registered (cancel s) k = removeAll c (registered s k) \<and>
     (wellFormed s \<longrightarrow> (\<forall>k'. k' \<noteq> k \<longrightarrow> registered (cancel s) k' = registered s k'))"
proof -
  from reg have "cancel = snd (on k c b)" by simp
  then have "cancel = deleteListener k c" by (simp add: snd_on)
  then show ?thesis
    by (simp add: deleteListener_twice registered_deleteListener registered_deleteListener_other)
qed

theorem cancel_twice_witness:
  "on DeleteCharacter 2 oneListener = (twoListeners, deleteListener DeleteCharacter 2) \<and>
   wellFormed threeListeners \<and> EditShot \<noteq> DeleteCharacter \<and>
   deleteListener DeleteCharacter 2 (deleteListener DeleteCharacter 2 threeListeners)
     = deleteListener DeleteCharacter 2 threeListeners \<and>
   registered (deleteListener DeleteCharacter 2 threeListeners) DeleteCharacter = [1] \<and>
   registered (deleteListener DeleteCharacter 2 threeListeners) EditShot = [3]"
proof -
  have reg: "on DeleteCharacter 2 oneListener = (twoListeners, deleteListener DeleteCharacter 2)"
    by (simp add: prod_eq_iff snd_on twoListeners_def)
  from cancel_twice [OF reg, of threeListeners] reg wellFormed_threeListeners show ?thesis
    by (simp add: registered_threeListeners)
qed

text \<open>
  C6. \<^verbatim>\<open>off\<close> without a callback takes the Set of the event out of the Map and touches
  nothing else: no callback is registered for the event, the other events keep theirs,
  \<^verbatim>\<open>emit\<close> for the event calls nothing, and a callback registered afterwards is the only
  one. \<^verbatim>\<open>off\<close> with a callback removes that callback from the callbacks of the event
  and keeps the others in order; on a bus built by the operations the other events keep
  theirs.
\<close>

theorem off_removes_listeners:
  "listeners (off k None b) k = None \<and> registered (off k None b) k = [] \<and>
   sets (off k None b) = sets b \<and>
   (\<forall>k'. k' \<noteq> k \<longrightarrow> listeners (off k None b) k' = listeners b k' \<and>
      registered (off k None b) k' = registered b k') \<and>
   emit body k p (off k None b) = Some ([], Normal (off k None b)) \<and>
   registered (fst (on k c' (off k None b))) k = [c'] \<and>
   registered (off k (Some c) b) k = removeAll c (registered b k) \<and>
   (wellFormed b \<longrightarrow> (\<forall>k'. k' \<noteq> k \<longrightarrow> registered (off k (Some c) b) k' = registered b k'))"
proof (intro conjI allI impI)
  show "listeners (off k None b) k = None" by (simp add: off_event_listeners)
  show gone: "registered (off k None b) k = []" by (simp add: registered_off_event)
  show "sets (off k None b) = sets b" by (rule off_event_sets)
  show "emit body k p (off k None b) = Some ([], Normal (off k None b))"
    using gone by (rule emit_without_listeners)
  show "registered (fst (on k c' (off k None b))) k = [c']"
    by (simp add: registered_on gone)
  show "registered (off k (Some c) b) k = removeAll c (registered b k)"
    by (rule registered_off_callback)
next
  fix k' assume "k' \<noteq> k"
  then show "listeners (off k None b) k' = listeners b k'"
    and "registered (off k None b) k' = registered b k'"
    by (simp_all add: off_event_listeners registered_off_event)
next
  fix k' assume "wellFormed b" "k' \<noteq> k"
  then show "registered (off k (Some c) b) k' = registered b k'"
    by (rule registered_off_callback_other)
qed

theorem off_removes_listeners_witness:
  "EditShot \<noteq> DeleteCharacter \<and> wellFormed threeListeners \<and>
   registered threeListeners DeleteCharacter = [1, 2] \<and>
   registered (off DeleteCharacter None threeListeners) DeleteCharacter = [] \<and>
   registered (off DeleteCharacter None threeListeners) EditShot = [3] \<and>
   emit firstThrows DeleteCharacter 7 (off DeleteCharacter None threeListeners)
     = Some ([], Normal (off DeleteCharacter None threeListeners)) \<and>
   registered (off DeleteCharacter (Some 1) threeListeners) DeleteCharacter = [2] \<and>
   registered (off DeleteCharacter (Some 1) threeListeners) EditShot = [3]"
  using off_removes_listeners [of DeleteCharacter threeListeners firstThrows 7 4 1] wellFormed_threeListeners
  by (simp add: registered_threeListeners)

end
